theory Spec2Isabelle
  imports Complex_Main "HOL-Library.Sublist"
begin

section \<open>Data model of the analyzer\<close>

text \<open>
  The interface \<open>FunctionNode\<close> of the analyzer. Optional fields
  (\<open>fileName?\<close>, \<open>code?\<close>, \<open>significance?\<close>) are options: \<open>None\<close> is JavaScript's
  \<open>undefined\<close>. Line numbers and scores are JavaScript numbers that only ever hold
  integers here.
\<close>

record FunctionNode =
  name :: string
  displayName :: string
  startLine :: int
  endLine :: int
  calls :: "string list"
  calledBy :: "string list"
  params :: "string list"
  complexity :: string
  fileName :: "string option"
  code :: "string option"
  significance :: "int option"

text \<open>
  A JavaScript \<open>Map<string, FunctionNode>\<close> iterates in insertion order, and \<open>set\<close> on
  a key that is already present keeps the key's position and replaces its value. It is
  the association list below, whose keys stay distinct under \<open>map_set\<close>.
\<close>

type_synonym FunctionMap = "(string \<times> FunctionNode) list"

fun map_set :: "('k \<times> 'v) list \<Rightarrow> 'k \<Rightarrow> 'v \<Rightarrow> ('k \<times> 'v) list" where
  "map_set [] k v = [(k, v)]"
| "map_set ((k', v') # m) k v =
     (if k' = k then (k, v) # m else (k', v') # map_set m k v)"

definition map_has :: "('k \<times> 'v) list \<Rightarrow> 'k \<Rightarrow> bool" where
  "map_has m k = (k \<in> set (map fst m))"

definition map_get :: "('k \<times> 'v) list \<Rightarrow> 'k \<Rightarrow> 'v option" where
  "map_get m k = map_of m k"

text \<open>
  The interface \<open>CodeAnalysis\<close>. Its fields \<open>fileName\<close>, \<open>functions\<close> and \<open>imports\<close>
  carry the suffix \<open>_A\<close>: the first is also a field of \<open>FunctionNode\<close>, the others are
  keywords of the theory language.
\<close>

record CodeAnalysis =
  fileName_A :: string
  language :: string
  functions_A :: FunctionMap
  imports_A :: "string list"
  exports :: "string list"

section \<open>Significance scorer\<close>

text \<open>
  The body of the \<open>forEach\<close> callback of \<open>calculateSignificance\<close>: the score of one
  record \<open>func\<close>, read against the array \<open>functions\<close> of all records and the export
  list. Each \<open>let\<close> is one \<open>if\<close> statement of the source, in the source's order.
\<close>

definition calleesAlsoCalled :: "FunctionNode list \<Rightarrow> FunctionNode \<Rightarrow> nat" where
  "calleesAlsoCalled fs func =
     length (filter (\<lambda>calledName.
        (case find (\<lambda>f. name f = calledName) fs of
           None \<Rightarrow> False
         | Some calledFunc \<Rightarrow> length (calledBy calledFunc) > 0)) (calls func))"

definition scoreOf :: "FunctionNode list \<Rightarrow> string list \<Rightarrow> FunctionNode \<Rightarrow> int" where
  "scoreOf fs exps func =
     (let score = 50;
          score = (if length (calledBy func) = 0 then score + 40 else score);
          score = (if length (calledBy func) > 0
                   then score + min (int (length (calledBy func)) * 8) 30 else score);
          score = (if length (calls func) > 3
                   then score + min (int (length (calls func)) * 2) 10 else score);
          score = (if length (calledBy func) > 3 then score - 20 else score);
          score = (if length (calls func) > 0 \<and> length (calledBy func) > 0
                   then (if calleesAlsoCalled fs func > 2 then score - 15 else score)
                   else score);
          score = (if name func \<in> set exps then score + 20 else score)
      in max 0 (min 100 score))"

text \<open>
  \<open>functions.forEach\<close> writes \<open>func.significance\<close> into the records one after the
  other, so a later iteration reads records an earlier one has already written. The
  loop is a fold over the indices of the value array, each step updating one record in
  place.
\<close>

definition scoreStep :: "string list \<Rightarrow> FunctionMap \<Rightarrow> nat \<Rightarrow> FunctionMap" where
  "scoreStep exps m i =
     m[i := (fst (m ! i),
             (snd (m ! i))\<lparr>significance := Some (scoreOf (map snd m) exps (snd (m ! i)))\<rparr>)]"

definition calculateSignificance :: "CodeAnalysis \<Rightarrow> CodeAnalysis" where
  "calculateSignificance analysis =
     (if length (functions_A analysis) = 0 then analysis
      else analysis\<lparr>functions_A :=
             foldl (scoreStep (exports analysis)) (functions_A analysis)
                   [0..<length (functions_A analysis)]\<rparr>)"

section \<open>Call graph builder: one file\<close>

text \<open>
  \<open>Array.prototype.findIndex\<close>: the index of the first element that satisfies the
  predicate, \<open>None\<close> for JavaScript's \<open>-1\<close>. \<open>Array.prototype.find\<close> is \<open>List.find\<close>.
\<close>

fun findIndex :: "('a \<Rightarrow> bool) \<Rightarrow> 'a list \<Rightarrow> nat option" where
  "findIndex P [] = None"
| "findIndex P (x # xs) = (if P x then Some 0 else map_option Suc (findIndex P xs))"

text \<open>
  The tree-sitter grammars and the regular expression of the fallback extractor are
  external: the traversal of one file is represented by the sequence of things it
  reports, in order. A reported callable unit carries what \<open>processJavaScriptFunction\<close>,
  \<open>processPythonFunction\<close>, \<open>processJavaMethod\<close> and \<open>analyzeGeneric\<close> store for it.
\<close>

record Unit_Found =
  u_name :: string
  u_startLine :: int
  u_endLine :: int
  u_calls :: "string list"
  u_params :: "string list"
  u_code :: string

datatype Found = Import_Found string | Export_Found string | Function_Found Unit_Found

definition processFunction :: "CodeAnalysis \<Rightarrow> Unit_Found \<Rightarrow> CodeAnalysis" where
  "processFunction analysis u =
     analysis\<lparr>functions_A := map_set (functions_A analysis) (u_name u)
       \<lparr>name = u_name u, displayName = u_name u,
        startLine = u_startLine u, endLine = u_endLine u,
        calls = u_calls u, calledBy = [], params = u_params u, complexity = [],
        fileName = Some (fileName_A analysis), code = Some (u_code u),
        significance = Some 50\<rparr>\<rparr>"

fun traverse :: "CodeAnalysis \<Rightarrow> Found \<Rightarrow> CodeAnalysis" where
  "traverse analysis (Import_Found src) = analysis\<lparr>imports_A := imports_A analysis @ [src]\<rparr>"
| "traverse analysis (Export_Found nm) = analysis\<lparr>exports := exports analysis @ [nm]\<rparr>"
| "traverse analysis (Function_Found u) = processFunction analysis u"

text \<open>
  \<open>buildCalledByRelationships\<close>. \<open>allFunctions\<close> holds the records of the map
  themselves, so \<open>targetFunc.calledBy.push\<close> changes the map: the state is the map, a
  record is addressed by its index in iteration order.
\<close>

definition pushAt :: "string \<Rightarrow> FunctionMap \<Rightarrow> nat \<Rightarrow> FunctionMap" where
  "pushAt caller m j =
     (if caller \<in> set (calledBy (snd (m ! j))) then m
      else m[j := (fst (m ! j),
                   (snd (m ! j))\<lparr>calledBy := calledBy (snd (m ! j)) @ [caller]\<rparr>)])"

definition pushCaller :: "string \<Rightarrow> FunctionMap \<Rightarrow> string \<Rightarrow> FunctionMap" where
  "pushCaller funcName m calledName =
     (case findIndex (\<lambda>e. name (snd e) = calledName) m of
        None \<Rightarrow> m
      | Some j \<Rightarrow> pushAt funcName m j)"

definition linkCallsOf :: "FunctionMap \<Rightarrow> nat \<Rightarrow> FunctionMap" where
  "linkCallsOf m i = foldl (pushCaller (name (snd (m ! i)))) m (calls (snd (m ! i)))"

definition buildCalledByRelationships :: "CodeAnalysis \<Rightarrow> CodeAnalysis" where
  "buildCalledByRelationships analysis =
     analysis\<lparr>functions_A :=
       foldl linkCallsOf (functions_A analysis) [0..<length (functions_A analysis)]\<rparr>"

definition analyzeDocument :: "string \<Rightarrow> string \<Rightarrow> Found list \<Rightarrow> CodeAnalysis" where
  "analyzeDocument fileName' language' found =
     calculateSignificance (buildCalledByRelationships
       (foldl traverse
          \<lparr>fileName_A = fileName', language = language', functions_A = [],
           imports_A = [], exports = []\<rparr> found))"

section \<open>Call graph builder: workspace merge\<close>

text \<open>
  \<open>analysis.fileName.split('/').pop() || analysis.fileName\<close>: the text after the last
  slash, and the whole name when that text is empty.
\<close>

definition fileLabel :: "string \<Rightarrow> string" where
  "fileLabel fn =
     (let l = rev (takeWhile (\<lambda>c. c \<noteq> CHR ''/'') (rev fn)) in if l = [] then fn else l)"

definition uniqueKey :: "string \<Rightarrow> string \<Rightarrow> string" where
  "uniqueKey nm label = nm @ ''::'' @ label"

text \<open>First loop of \<open>mergeAnalyses\<close>: copy every record under its unique key.\<close>

definition addFunction :: "CodeAnalysis \<Rightarrow> FunctionMap \<Rightarrow> string \<times> FunctionNode \<Rightarrow> FunctionMap" where
  "addFunction analysis mf e =
     map_set mf (uniqueKey (fst e) (fileLabel (fileName_A analysis)))
       ((snd e)\<lparr>name := uniqueKey (fst e) (fileLabel (fileName_A analysis)),
                displayName := fst e,
                fileName := Some (fileName_A analysis)\<rparr>)"

definition addAnalysis :: "CodeAnalysis \<Rightarrow> CodeAnalysis \<Rightarrow> CodeAnalysis" where
  "addAnalysis merged analysis =
     merged\<lparr>functions_A := foldl (addFunction analysis) (functions_A merged) (functions_A analysis),
            imports_A := imports_A merged @ imports_A analysis,
            exports := exports merged @ exports analysis\<rparr>"

text \<open>
  Second loop: rewrite the call references of every merged record and empty its
  callers list. \<open>key.startsWith(calledName + '::')\<close> is \<open>prefix\<close>; the scan
  \<open>for (const [key] of merged.functions)\<close> returns the first key in iteration order.
\<close>

definition resolveCall :: "FunctionMap \<Rightarrow> string \<Rightarrow> string \<Rightarrow> string" where
  "resolveCall mf label calledName =
     (let sameFileKey = uniqueKey calledName label in
      if map_has mf sameFileKey then sameFileKey
      else (case find (\<lambda>key. prefix (calledName @ ''::'') key) (map fst mf) of
              Some key \<Rightarrow> key
            | None \<Rightarrow> calledName))"

definition rewriteCalls :: "string \<Rightarrow> FunctionMap \<Rightarrow> string \<times> FunctionNode \<Rightarrow> FunctionMap" where
  "rewriteCalls label mf e =
     (case map_get mf (uniqueKey (fst e) label) of
        None \<Rightarrow> mf
      | Some mergedFunc \<Rightarrow>
          map_set mf (uniqueKey (fst e) label)
            (mergedFunc\<lparr>calls := map (resolveCall mf label) (calls (snd e)),
                        calledBy := []\<rparr>))"

definition rewriteAnalysis :: "FunctionMap \<Rightarrow> CodeAnalysis \<Rightarrow> FunctionMap" where
  "rewriteAnalysis mf analysis =
     foldl (rewriteCalls (fileLabel (fileName_A analysis))) mf (functions_A analysis)"

text \<open>Third loop: rebuild the callers lists from the rewritten calls.\<close>

definition pushCallerKey :: "string \<Rightarrow> FunctionMap \<Rightarrow> string \<Rightarrow> FunctionMap" where
  "pushCallerKey funcKey mf calledKey =
     (case map_get mf calledKey of
        None \<Rightarrow> mf
      | Some calledFunc \<Rightarrow>
          if funcKey \<in> set (calledBy calledFunc) then mf
          else map_set mf calledKey (calledFunc\<lparr>calledBy := calledBy calledFunc @ [funcKey]\<rparr>))"

definition linkKeyCallsOf :: "FunctionMap \<Rightarrow> nat \<Rightarrow> FunctionMap" where
  "linkKeyCallsOf mf i = foldl (pushCallerKey (fst (mf ! i))) mf (calls (snd (mf ! i)))"

definition rebuildCalledBy :: "FunctionMap \<Rightarrow> FunctionMap" where
  "rebuildCalledBy mf = foldl linkKeyCallsOf mf [0..<length mf]"

definition emptyMerged :: CodeAnalysis where
  "emptyMerged = \<lparr>fileName_A = ''Workspace Analysis'', language = ''multiple'',
                  functions_A = [], imports_A = [], exports = []\<rparr>"

definition mergeAnalyses :: "CodeAnalysis list \<Rightarrow> CodeAnalysis" where
  "mergeAnalyses analyses =
     (let merged = foldl addAnalysis emptyMerged analyses;
          merged = merged\<lparr>functions_A := foldl rewriteAnalysis (functions_A merged) analyses\<rparr>;
          merged = merged\<lparr>functions_A := rebuildCalledBy (functions_A merged)\<rparr>
      in calculateSignificance merged)"

section \<open>Viewport significance filter\<close>

text \<open>
  A position as the renderers read it: two JavaScript numbers, here exact reals. A
  node that a layout hides sits at \<open>(-10000, -10000)\<close>.
\<close>

record Position =
  pos_x :: real
  pos_y :: real

text \<open>
  The table \<open>SIGNIFICANCE_LEVELS\<close> of the webview script, as the object literal lists
  it. \<open>getMinSignificance\<close> sorts the keys and scans them from the greatest down; the
  lookup \<open>SIGNIFICANCE_LEVELS[t]\<close> is \<open>map_of\<close>, \<open>None\<close> being JavaScript's \<open>undefined\<close>.
\<close>

definition SIGNIFICANCE_LEVELS :: "(real \<times> int) list" where
  "SIGNIFICANCE_LEVELS = [(0.5, 70), (0.8, 50), (1.0, 30), (1.3, 20), (1.8, 10), (2.5, 0)]"

definition getMinSignificance :: "real \<Rightarrow> int option" where
  "getMinSignificance zoomLevel =
     (let thresholds = sort (map fst SIGNIFICANCE_LEVELS) in
      case find (\<lambda>t. zoomLevel \<ge> t) (rev thresholds) of
        Some t \<Rightarrow> map_of SIGNIFICANCE_LEVELS t
      | None \<Rightarrow> (case thresholds of [] \<Rightarrow> None | t0 # _ \<Rightarrow> map_of SIGNIFICANCE_LEVELS t0))"

text \<open>
  \<open>Set.prototype.has\<close> on a set of file names, asked for a record's \<open>fileName\<close>, which
  may be \<open>undefined\<close>. A \<open>Set<string>\<close> is the list of its elements, its \<open>size\<close> the
  length.
\<close>

definition setHas :: "string list \<Rightarrow> string option \<Rightarrow> bool" where
  "setHas s v = (case v of None \<Rightarrow> False | Some fn \<Rightarrow> fn \<in> set s)"

definition shouldShowFunction ::
    "FunctionNode \<Rightarrow> real \<Rightarrow> bool \<Rightarrow> string list \<Rightarrow> string list \<Rightarrow> bool" where
  "shouldShowFunction func zoomLevel isWorkspaceMode expandedFiles filesToShow =
     (if isWorkspaceMode \<and> length expandedFiles > 0 \<and> \<not> setHas filesToShow (fileName func)
      then False
      else
        (let minSignificance = getMinSignificance zoomLevel;
             funcSignificance = (case significance func of Some s \<Rightarrow> s | None \<Rightarrow> 100)
         in (case minSignificance of
               None \<Rightarrow> False
             | Some m \<Rightarrow> funcSignificance \<ge> m)))"

text \<open>
  \<open>renderDetailedView\<close>, reduced to the nodes it draws: the indices, in order, of the
  functions for which it appends a node element. \<open>positions[i].x\<close> with \<open>i\<close> beyond
  the positions is a \<open>TypeError\<close>, the result \<open>None\<close>. \<open>clusterFiles\<close> are the keys of the
  global \<open>fileClusters\<close>.
\<close>

definition renderDetailedView ::
    "FunctionNode list \<Rightarrow> Position list \<Rightarrow> real \<Rightarrow> bool \<Rightarrow> string list \<Rightarrow> string list
     \<Rightarrow> nat list option" where
  "renderDetailedView functions' positions scale isWorkspaceMode expandedFiles clusterFiles =
     (if length positions < length functions' then None
      else
        (let filesToShow = (if length expandedFiles > 0 then expandedFiles else clusterFiles);
             visibleFunctions =
               filter (\<lambda>i. pos_x (positions ! i) > -1000
                            \<and> shouldShowFunction (functions' ! i) scale isWorkspaceMode
                                  expandedFiles filesToShow)
                      [0..<length functions']
         in Some (filter (\<lambda>i. setHas filesToShow (fileName (functions' ! i))) visibleFunctions)))"

section \<open>Hierarchical layout\<close>

text \<open>\<open>Set.prototype.add\<close> on a set kept as the list of its elements in insertion order.\<close>

definition setAdd :: "string list \<Rightarrow> string \<Rightarrow> string list" where
  "setAdd s v = (if v \<in> set s then s else s @ [v])"

text \<open>
  The layout receives the records as \<open>FunctionInfo\<close>, of which it reads \<open>name\<close>,
  \<open>calls\<close> and \<open>calledBy\<close>; they are the \<open>FunctionNode\<close> records here.

  \<open>getMaxDepth\<close>: the length of the longest call chain below a node. Every path
  carries its own copy of \<open>depthVisited\<close>, so a cycle ends the path. The recursion
  ends because every call that goes on marks a name of the graph that the path had
  not marked.
\<close>

function getMaxDepth :: "FunctionNode list \<Rightarrow> FunctionNode \<Rightarrow> string list \<Rightarrow> nat" where
  "getMaxDepth fs node depthVisited =
     (if name node \<in> set depthVisited then 0
      else if length (calls node) = 0 then 0
      else foldl (\<lambda>maxDepth calledName.
                    (case find (\<lambda>f. name f = calledName) fs of
                       None \<Rightarrow> maxDepth
                     | Some called \<Rightarrow>
                         max maxDepth (getMaxDepth fs called (setAdd depthVisited (name node)) + 1)))
                 0 (calls node))"
  by pat_completeness auto

termination
proof (relation "measure (\<lambda>(fs, node, dv).
          2 * card (name ` set fs - set dv) + (if name node \<in> name ` set fs then 0 else 1))",
       goal_cases)
  case 1
  then show ?case by simp
next
  case (2 fs node dv maxDepth calledName called)
  from 2(4) have c: "called \<in> set fs"
    by (induction fs) (auto split: if_splits)
  have fin: "finite (name ` set fs - set dv)" by simp
  show ?case
  proof (cases "name node \<in> name ` set fs")
    case True
    with 2(1) have m: "name node \<in> name ` set fs - set dv" by simp
    have e: "name ` set fs - set (setAdd dv (name node)) = (name ` set fs - set dv) - {name node}"
      by (auto simp: setAdd_def)
    have "card (name ` set fs - set (setAdd dv (name node))) < card (name ` set fs - set dv)"
      unfolding e by (rule card_Diff1_less[OF fin m])
    with c show ?thesis by simp
  next
    case False
    then have "name ` set fs - set (setAdd dv (name node)) = name ` set fs - set dv"
      by (auto simp: setAdd_def)
    with c False show ?thesis by simp
  qed
qed

declare getMaxDepth.simps [simp del]

text \<open>
  The \<open>while (toVisit.length > 0)\<close> loop that collects the transitive callees of a
  meaningful function. \<open>toVisit\<close> is a stack: the list holds it with the top first, so
  \<open>pop\<close> takes the head and \<open>push\<close> conses. The result is \<open>meaningfulNodes\<close>.
\<close>

definition pushCallees ::
    "FunctionNode list \<Rightarrow> string list \<Rightarrow> FunctionNode list \<Rightarrow> string list \<Rightarrow> FunctionNode list" where
  "pushCallees fs chainVisited toVisit cs =
     foldl (\<lambda>stack calledName.
              (case find (\<lambda>f. name f = calledName) fs of
                 None \<Rightarrow> stack
               | Some called \<Rightarrow>
                   if name called \<in> set chainVisited then stack else called # stack))
           toVisit cs"

function chainWalk ::
    "FunctionNode list \<Rightarrow> FunctionNode list \<Rightarrow> string list \<Rightarrow> string list \<Rightarrow> string list" where
  "chainWalk fs [] chainVisited meaningfulNodes = meaningfulNodes"
| "chainWalk fs (current # toVisit) chainVisited meaningfulNodes =
     (if name current \<in> set chainVisited then chainWalk fs toVisit chainVisited meaningfulNodes
      else chainWalk fs
             (pushCallees fs (setAdd chainVisited (name current)) toVisit (calls current))
             (setAdd chainVisited (name current))
             (setAdd meaningfulNodes (name current)))"
  by pat_completeness auto

termination
proof (relation "inv_image (less_than <*lex*> less_than)
         (\<lambda>(fs, toVisit, cv, mn). (card (name ` (set fs \<union> set toVisit) - set cv), length toVisit))",
       goal_cases)
  case 1
  then show ?case by (intro wf_inv_image wf_lex_prod wf_less_than)
next
  case (2 fs current toVisit cv mn)
  have "name ` (set fs \<union> set toVisit) - set cv \<subseteq> name ` (set fs \<union> set (current # toVisit)) - set cv"
    by auto
  then have "card (name ` (set fs \<union> set toVisit) - set cv)
             \<le> card (name ` (set fs \<union> set (current # toVisit)) - set cv)"
    by (intro card_mono) simp_all
  then show ?case by auto
next
  case (3 fs current toVisit cv mn)
  let ?st = "pushCallees fs (setAdd cv (name current)) toVisit (calls current)"
  let ?old = "name ` (set fs \<union> set (current # toVisit)) - set cv"
  have sub: "set (pushCallees fs v st cs) \<subseteq> set st \<union> set fs" for v st cs
  proof (induction cs arbitrary: st)
    case Nil
    then show ?case by (simp add: pushCallees_def)
  next
    case (Cons c cs)
    show ?case
    proof (cases "find (\<lambda>f. name f = c) fs")
      case None
      with Cons.IH[of st] show ?thesis by (simp add: pushCallees_def)
    next
      case (Some called)
      then have "called \<in> set fs" by (induction fs) (auto split: if_splits)
      with Some Cons.IH[of st] Cons.IH[of "called # st"] show ?thesis
        by (auto simp: pushCallees_def)
    qed
  qed
  have "set ?st \<subseteq> set toVisit \<union> set fs" by (rule sub)
  then have "name ` (set fs \<union> set ?st) - set (setAdd cv (name current)) \<subseteq> ?old - {name current}"
    by (auto simp: setAdd_def)
  moreover have "name current \<in> ?old" using 3 by simp
  moreover have "finite ?old" by simp
  ultimately have "card (name ` (set fs \<union> set ?st) - set (setAdd cv (name current))) < card ?old"
    by (meson card_Diff1_less card_mono finite_Diff le_less_trans)
  then show ?case by simp
qed

declare chainWalk.simps [simp del]

text \<open>
  The first \<open>functions.forEach\<close>: a function with a call chain of depth two or more below
  it, or with two or more callers, is meaningful, and so is everything it reaches.
  The second adds the callers of meaningful functions, reading the set it is writing.
\<close>

definition markMeaningful :: "FunctionNode list \<Rightarrow> string list \<Rightarrow> FunctionNode \<Rightarrow> string list" where
  "markMeaningful fs meaningfulNodes func =
     (let depth = getMaxDepth fs func [] in
      if depth \<ge> 2 \<or> length (calledBy func) \<ge> 2
      then chainWalk fs [func] [] (setAdd meaningfulNodes (name func))
      else meaningfulNodes)"

definition includeCallers :: "string list \<Rightarrow> FunctionNode \<Rightarrow> string list" where
  "includeCallers meaningfulNodes func =
     foldl (\<lambda>mn calledName. if calledName \<in> set mn then setAdd mn (name func) else mn)
           meaningfulNodes (calls func)"

definition meaningfulNodesOf :: "FunctionNode list \<Rightarrow> string list" where
  "meaningfulNodesOf fs = foldl includeCallers (foldl (markMeaningful fs) [] fs) fs"

definition functionsToDisplay :: "FunctionNode list \<Rightarrow> FunctionNode list" where
  "functionsToDisplay fs =
     (if length (meaningfulNodesOf fs) > 0
      then filter (\<lambda>f. name f \<in> set (meaningfulNodesOf fs)) fs
      else filter (\<lambda>f. length (calls f) > 0 \<or> length (calledBy f) > 0) fs)"

definition rootsOf :: "FunctionNode list \<Rightarrow> FunctionNode list" where
  "rootsOf fs =
     (let roots = filter (\<lambda>f. length (calledBy f) = 0
                               \<or> \<not> (\<exists>caller \<in> set (calledBy f). caller \<in> set (meaningfulNodesOf fs)))
                         (functionsToDisplay fs)
      in if length roots = 0 \<and> length (functionsToDisplay fs) > 0
         then roots @ [hd (functionsToDisplay fs)] else roots)"

text \<open>
  \<open>assignLevels\<close> writes the shared \<open>visited\<close> set and the \<open>levels\<close> map (a \<open>Map\<close> from
  level to the nodes of the level, in insertion order). The state is passed through
  the calls. The recursion is bounded by its depth: every call that goes on marks a
  name that was not marked, so the depth never exceeds the number of functions plus
  one; \<open>None\<close> is the result of a call that would go deeper than the bound it is given.
\<close>

record LevelState =
  visited :: "string list"
  levels :: "(nat \<times> FunctionNode list) list"

definition levelsPush :: "(nat \<times> FunctionNode list) list \<Rightarrow> nat \<Rightarrow> FunctionNode
                          \<Rightarrow> (nat \<times> FunctionNode list) list" where
  "levelsPush lv level node' =
     (case map_get lv level of
        None \<Rightarrow> map_set lv level [node']
      | Some nodes \<Rightarrow> map_set lv level (nodes @ [node']))"

fun assignLevels ::
    "nat \<Rightarrow> FunctionNode list \<Rightarrow> FunctionNode \<Rightarrow> nat \<Rightarrow> LevelState \<Rightarrow> LevelState option" where
  "assignLevels 0 ftd node' level st = None"
| "assignLevels (Suc depthLeft) ftd node' level st =
     (if name node' \<in> set (visited st) then Some st
      else foldl (\<lambda>acc calledName.
                    (case acc of
                       None \<Rightarrow> None
                     | Some st' \<Rightarrow>
                         (case find (\<lambda>f. name f = calledName) ftd of
                            None \<Rightarrow> Some st'
                          | Some called \<Rightarrow> assignLevels depthLeft ftd called (level + 1) st')))
                 (Some (st\<lparr>visited := setAdd (visited st) (name node'),
                           levels := levelsPush (levels st) level node'\<rparr>))
                 (calls node'))"

definition assignRoots :: "FunctionNode list \<Rightarrow> LevelState option" where
  "assignRoots fs =
     foldl (\<lambda>acc root.
              (case acc of
                 None \<Rightarrow> None
               | Some st \<Rightarrow> assignLevels (Suc (length fs)) (functionsToDisplay fs) root 0 st))
           (Some \<lparr>visited = [], levels = []\<rparr>) (rootsOf fs)"

text \<open>
  The positions: hidden or origin first, then every leveled node at the band of its
  level, evenly spaced within the level. \<open>functions.indexOf(node)\<close> finds the node
  itself; records are values here, so it is the first equal record.
\<close>

definition hiddenPosition :: Position where
  "hiddenPosition = \<lparr>pos_x = -10000, pos_y = -10000\<rparr>"

definition placeNode ::
    "FunctionNode list \<Rightarrow> real \<Rightarrow> real \<Rightarrow> nat \<Rightarrow> Position list \<Rightarrow> nat \<times> FunctionNode
     \<Rightarrow> Position list" where
  "placeNode fs width y nodeCount positions e =
     (let x = (if nodeCount = 1 then width / 2
               else (let horizontalPadding = 150;
                         availableWidth = width - 2 * horizontalPadding;
                         spacing = min 250 (availableWidth / (real nodeCount - 1));
                         totalWidth = spacing * (real nodeCount - 1);
                         startX = (width - totalWidth) / 2
                     in startX + spacing * real (fst e)))
      in (case findIndex (\<lambda>f. f = snd e) fs of
            None \<Rightarrow> positions
          | Some funcIndex \<Rightarrow> positions[funcIndex := \<lparr>pos_x = x, pos_y = y\<rparr>]))"

definition placeLevel ::
    "FunctionNode list \<Rightarrow> real \<Rightarrow> real \<Rightarrow> nat \<Rightarrow> Position list \<Rightarrow> nat \<times> FunctionNode list
     \<Rightarrow> Position list" where
  "placeLevel fs width height maxLevel positions lv =
     (let verticalPadding = 120;
          y = (if maxLevel > 0
               then verticalPadding
                    + (real (fst lv) / real maxLevel) * (height - 2 * verticalPadding)
               else height / 2)
      in foldl (placeNode fs width y (length (snd lv))) positions
               (zip [0..<length (snd lv)] (snd lv)))"

definition calculateHierarchicalLayout ::
    "FunctionNode list \<Rightarrow> real \<Rightarrow> real \<Rightarrow> Position list option" where
  "calculateHierarchicalLayout fs width height =
     (case assignRoots fs of
        None \<Rightarrow> None
      | Some st \<Rightarrow>
          (let positions = map (\<lambda>func. if name func \<in> set (visited st)
                                       then \<lparr>pos_x = 0, pos_y = 0\<rparr> else hiddenPosition) fs;
               maxLevel = (if length (levels st) > 0 then Max (set (map fst (levels st))) else 0)
           in Some (foldl (placeLevel fs width height maxLevel) positions (levels st))))"

section \<open>Validation of positions before rendering\<close>

text \<open>
  What a coordinate of a position object can hold when \<open>renderVisualization\<close> validates
  it: a finite number, an infinity, \<open>NaN\<close>, or \<open>undefined\<close>. The global \<open>isNaN\<close> converts
  its argument to a number first, so it is true of \<open>undefined\<close> too.
\<close>

datatype jsnum = Num real | PosInfinity | NegInfinity | NaN | Undefined

fun isNaN :: "jsnum \<Rightarrow> bool" where
  "isNaN NaN = True"
| "isNaN Undefined = True"
| "isNaN _ = False"

record JsPosition =
  js_x :: jsnum
  js_y :: jsnum

text \<open>
  The validation loop \<open>positions.forEach((pos, i) => ...)\<close> of \<open>renderVisualization\<close>,
  which runs between the layout and the rendering. \<open>Math.random\<close> is a sequence of
  draws and a counter of the draws made so far; \<open>width\<close> and \<open>height\<close> are the finite
  numbers of the canvas rectangle, and the arithmetic is exact.
\<close>

fun validatePositions ::
    "real \<Rightarrow> real \<Rightarrow> (nat \<Rightarrow> real) \<Rightarrow> nat \<Rightarrow> JsPosition list \<Rightarrow> JsPosition list \<times> nat" where
  "validatePositions width height random n [] = ([], n)"
| "validatePositions width height random n (pos # rest) =
     (if isNaN (js_x pos) \<or> isNaN (js_y pos) \<or> js_x pos = Undefined \<or> js_y pos = Undefined
      then (let x = Num (width / 2 + (random n - 0.5) * 100);
                y = Num (height / 2 + (random (n + 1) - 0.5) * 100);
                r = validatePositions width height random (n + 2) rest
            in (pos\<lparr>js_x := x, js_y := y\<rparr> # fst r, snd r))
      else (let r = validatePositions width height random n rest
            in (pos # fst r, snd r)))"

section \<open>Definitions used to state the properties\<close>

text \<open>
  The formula of the specification, written over a record and the graph it lives in:
  a callee "has at least one caller" when some record of the graph carries the
  callee's name and a non-empty callers list.
\<close>

definition calleesWithCallers :: "FunctionNode list \<Rightarrow> FunctionNode \<Rightarrow> nat" where
  "calleesWithCallers fs func =
     length (filter (\<lambda>c. \<exists>g \<in> set fs. name g = c \<and> calledBy g \<noteq> []) (calls func))"

definition significanceFormula :: "FunctionNode list \<Rightarrow> string list \<Rightarrow> FunctionNode \<Rightarrow> int" where
  "significanceFormula fs exps func =
     max 0 (min 100
       (50
        + (if calledBy func = [] then 40 else 0)
        + (if length (calledBy func) > 0 then min (8 * int (length (calledBy func))) 30 else 0)
        + (if length (calls func) > 3 then min (2 * int (length (calls func))) 10 else 0)
        - (if length (calledBy func) > 3 then 20 else 0)
        - (if length (calls func) > 0 \<and> length (calledBy func) > 0
              \<and> calleesWithCallers fs func > 2 then 15 else 0)
        + (if name func \<in> set exps then 20 else 0)))"

text \<open>
  The score reads only the names, calls and callers of the records: two arrays that
  agree on those give every record the same score.
\<close>

definition sameGraph :: "FunctionNode list \<Rightarrow> FunctionNode list \<Rightarrow> bool" where
  "sameGraph fs gs =
     (map (\<lambda>f. (name f, calls f, calledBy f)) fs = map (\<lambda>f. (name f, calls f, calledBy f)) gs)"

text \<open>
  The scoring loop as one pass: every record receives the score computed against the
  array as it was before the loop.
\<close>

definition withScore :: "FunctionNode list \<Rightarrow> string list \<Rightarrow> string \<times> FunctionNode \<Rightarrow> string \<times> FunctionNode" where
  "withScore fs exps e = (fst e, (snd e)\<lparr>significance := Some (scoreOf fs exps (snd e))\<rparr>)"

text \<open>
  Both callers loops (\<open>buildCalledByRelationships\<close> and the third loop of
  \<open>mergeAnalyses\<close>) have one shape: look the callee up by an identifier \<open>\<kappa>\<close> of
  the entries (the record's name in the first, the map key in the second) and push
  the caller's identifier. The generic loop is what the proofs are about.
\<close>

definition stepK :: "(string \<times> FunctionNode \<Rightarrow> string) \<Rightarrow> string \<Rightarrow> FunctionMap \<Rightarrow> string \<Rightarrow> FunctionMap" where
  "stepK \<kappa> caller m c =
     (case findIndex (\<lambda>e. \<kappa> e = c) m of None \<Rightarrow> m | Some j \<Rightarrow> pushAt caller m j)"

definition linkK :: "(string \<times> FunctionNode \<Rightarrow> string) \<Rightarrow> FunctionMap \<Rightarrow> nat \<Rightarrow> FunctionMap" where
  "linkK \<kappa> m i = foldl (stepK \<kappa> (\<kappa> (m ! i))) m (calls (snd (m ! i)))"

definition loopK :: "(string \<times> FunctionNode \<Rightarrow> string) \<Rightarrow> FunctionMap \<Rightarrow> FunctionMap" where
  "loopK \<kappa> m = foldl (linkK \<kappa>) m [0..<length m]"

text \<open>An entry with its callers list emptied: what the callers loops never change.\<close>

definition erase :: "string \<times> FunctionNode \<Rightarrow> string \<times> FunctionNode" where
  "erase e = (fst e, (snd e)\<lparr>calledBy := []\<rparr>)"

text \<open>An identifier is stable when it does not read the callers list.\<close>

definition stable :: "(string \<times> FunctionNode \<Rightarrow> string) \<Rightarrow> bool" where
  "stable \<kappa> = (\<forall>e e'. erase e = erase e' \<longrightarrow> \<kappa> e = \<kappa> e')"

text \<open>
  The state of a map before its callers are rebuilt: distinct keys, every record
  named by its key; \<open>emptied m k\<close> says the record under \<open>k\<close>, if any, has no
  callers.
\<close>

definition wellKeyed :: "FunctionMap \<Rightarrow> bool" where
  "wellKeyed m = (distinct (map fst m) \<and> (\<forall>e \<in> set m. name (snd e) = fst e))"

definition emptied :: "FunctionMap \<Rightarrow> string \<Rightarrow> bool" where
  "emptied m k = (\<forall>f. (k, f) \<in> set m \<longrightarrow> calledBy f = [])"

text \<open>The map handed to the third loop.\<close>

definition rewritten :: "CodeAnalysis list \<Rightarrow> FunctionMap" where
  "rewritten as = foldl rewriteAnalysis (functions_A (foldl addAnalysis emptyMerged as)) as"

text \<open>\<open>String.prototype.includes\<close>: the first text occurs somewhere in the second.\<close>

fun includesSub :: "string \<Rightarrow> string \<Rightarrow> bool" where
  "includesSub sub [] = (sub = [])"
| "includesSub sub (c # cs) = (prefix sub (c # cs) \<or> includesSub sub cs)"

text \<open>
  The keys \<open>mergeAnalyses\<close> assigns, in the order of its first loop: for every file, for
  every function of the file, the local name joined to the file's label.
\<close>

definition keysOf :: "CodeAnalysis \<Rightarrow> string list" where
  "keysOf a = map (\<lambda>e. uniqueKey (fst e) (fileLabel (fileName_A a))) (functions_A a)"

definition allKeys :: "CodeAnalysis list \<Rightarrow> string list" where
  "allKeys as = concat (map keysOf as)"

text \<open>The local names a file declares: the keys of its function map.\<close>

definition localNames :: "CodeAnalysis \<Rightarrow> string set" where
  "localNames a = set (map fst (functions_A a))"

text \<open>
  One name is another name followed by a colon and, possibly, more text. The names the
  analyzer stores are texts of name nodes of the syntax tree, or matches of \<open>\w+\<close> in
  \<open>analyzeGeneric\<close>; none of them is another of them followed by a colon.
\<close>

definition extendsByColon :: "string \<Rightarrow> string \<Rightarrow> bool" where
  "extendsByColon n n' = prefix (n @ '':'') n'"

text \<open>
  The binding rule of the specification for one raw callee name \<open>C\<close> written in a file
  labelled \<open>L\<close>, over the keys of the merged graph in iteration order: the same-file
  key when the graph has it; otherwise the first key that starts with \<open>C::\<close>, when
  there is one; otherwise \<open>C\<close> itself.
\<close>

definition bindsTo :: "string list \<Rightarrow> string \<Rightarrow> string \<Rightarrow> string \<Rightarrow> bool" where
  "bindsTo keys L C r =
     (if uniqueKey C L \<in> set keys then r = uniqueKey C L
      else if (\<exists>key \<in> set keys. prefix (C @ ''::'') key)
           then (\<exists>i < length keys. r = keys ! i \<and> prefix (C @ ''::'') (keys ! i)
                    \<and> (\<forall>j < i. \<not> prefix (C @ ''::'') (keys ! j)))
           else r = C)"

text \<open>
  The two nested loops of \<open>mergeAnalyses\<close> run over the same sequence of pairs of a
  file and one of its map entries.
\<close>

definition pairsOf :: "CodeAnalysis list \<Rightarrow> (CodeAnalysis \<times> string \<times> FunctionNode) list" where
  "pairsOf as = concat (map (\<lambda>a. map (Pair a) (functions_A a)) as)"

definition keyP :: "CodeAnalysis \<times> string \<times> FunctionNode \<Rightarrow> string" where
  "keyP p = uniqueKey (fst (snd p)) (fileLabel (fileName_A (fst p)))"

definition copyP :: "CodeAnalysis \<times> string \<times> FunctionNode \<Rightarrow> FunctionNode" where
  "copyP p = (snd (snd p))\<lparr>name := keyP p, displayName := fst (snd p),
                            fileName := Some (fileName_A (fst p))\<rparr>"

text \<open>The cutoff as a function of the zoom scale, read off the table.\<close>

definition cutoffAt :: "real \<Rightarrow> int" where
  "cutoffAt z =
     (if 2.5 \<le> z then 0 else if 1.8 \<le> z then 10 else if 1.3 \<le> z then 20
      else if 1.0 \<le> z then 30 else if 0.8 \<le> z then 50 else 70)"

text \<open>The significance a node is filtered by: 100 when the record carries none.\<close>

definition valueOr100 :: "int option \<Rightarrow> int" where
  "valueOr100 s = (case s of Some v \<Rightarrow> v | None \<Rightarrow> 100)"

text \<open>A coordinate that is \<open>NaN\<close> or \<open>undefined\<close>, and a position with such a coordinate.\<close>

definition missing :: "jsnum \<Rightarrow> bool" where
  "missing v = (v = NaN \<or> v = Undefined)"

definition broken :: "JsPosition \<Rightarrow> bool" where
  "broken pos = (missing (js_x pos) \<or> missing (js_y pos))"

text \<open>A coordinate that is a number within 50 of a centre.\<close>

definition near :: "real \<Rightarrow> jsnum \<Rightarrow> bool" where
  "near c v = (case v of Num r \<Rightarrow> \<bar>r - c\<bar> \<le> 50 | _ \<Rightarrow> False)"

section \<open>Example graphs\<close>

text \<open>A record with the given name, calls and callers, every other field at a default.\<close>

definition funcNode :: "string \<Rightarrow> string list \<Rightarrow> string list \<Rightarrow> FunctionNode" where
  "funcNode nm cs cb =
     \<lparr>name = nm, displayName = nm, startLine = 0, endLine = 0, calls = cs, calledBy = cb,
      params = [], complexity = [], fileName = None, code = None, significance = None\<rparr>"

text \<open>
  Two files of a workspace: \<open>main\<close> calls \<open>helper\<close> of its own file and the unknown
  \<open>log\<close>; \<open>run\<close> calls \<open>helper\<close>, which only the other file declares.
\<close>

definition fileA :: CodeAnalysis where
  "fileA = \<lparr>fileName_A = ''src/a.js'', language = ''javascript'',
             functions_A = [(''main'', funcNode ''main'' [''helper'', ''log''] []),
                            (''helper'', funcNode ''helper'' [] [''main''])],
             imports_A = [], exports = [''main'']\<rparr>"

definition fileB :: CodeAnalysis where
  "fileB = \<lparr>fileName_A = ''src/b.js'', language = ''javascript'',
             functions_A = [(''run'', funcNode ''run'' [''helper'', ''setup''] []),
                            (''setup'', funcNode ''setup'' [] [''run''])],
             imports_A = [], exports = []\<rparr>"

text \<open>
  Nodes of a workspace graph as the webview receives them: \<open>helperNode\<close> of file
  \<open>a.ts\<close> has one caller and the score 58; \<open>unscoredNode\<close> of file \<open>b.ts\<close> has no
  significance value.
\<close>

definition helperNode :: FunctionNode where
  "helperNode = (funcNode ''helper'' [] [''main''])\<lparr>fileName := Some ''a.ts'', significance := Some 58\<rparr>"

definition unscoredNode :: FunctionNode where
  "unscoredNode = (funcNode ''other'' [] [])\<lparr>fileName := Some ''b.ts''\<rparr>"

text \<open>
  The example of the specification: \<open>A\<close> calls \<open>B\<close>, \<open>B\<close> calls \<open>C\<close>, and \<open>D\<close> neither
  calls nor is called.
\<close>

definition chainABCD :: "FunctionNode list" where
  "chainABCD = [funcNode ''A'' [''B''] [], funcNode ''B'' [''C''] [''A''], funcNode ''C'' [] [''B''],
                funcNode ''D'' [] []]"

section \<open>Properties of the significance scorer\<close>

lemma find_name_distinct:
  "distinct (map name fs) \<Longrightarrow>
   (case find (\<lambda>f. name f = c) fs of None \<Rightarrow> False | Some g \<Rightarrow> length (calledBy g) > 0)
   = (\<exists>g \<in> set fs. name g = c \<and> calledBy g \<noteq> [])"
proof (induction fs)
  case Nil
  then show ?case by simp
next
  case (Cons f fs)
  show ?case
  proof (cases "name f = c")
    case True
    with Cons.prems have "\<forall>g \<in> set fs. name g \<noteq> c" by (auto simp: image_iff)
    with True show ?thesis by auto
  next
    case False
    with Cons show ?thesis by auto
  qed
qed

lemma calleesAlsoCalled_eq:
  "distinct (map name fs) \<Longrightarrow> calleesAlsoCalled fs func = calleesWithCallers fs func"
  by (simp add: calleesAlsoCalled_def calleesWithCallers_def find_name_distinct)

lemma if_add_int: "(if c then s + a else s) = s + (if c then a else (0::int))"
  by simp

lemma if_sub_int: "(if c then s - a else s) = s - (if c then a else (0::int))"
  by simp

lemma if_if_sub_int:
  "(if c then (if d then s - a else s) else s) = s - (if c \<and> d then a else (0::int))"
  by simp

lemma if_if_zero_int:
  "(if c then (if d then a else 0) else 0) = (if c \<and> d then a else (0::int))"
  by simp

lemma scoreOf_formula:
  "distinct (map name fs) \<Longrightarrow> scoreOf fs exps func = significanceFormula fs exps func"
  unfolding scoreOf_def significanceFormula_def Let_def
  by (simp only: calleesAlsoCalled_eq if_if_sub_int if_if_zero_int if_add_int if_sub_int
        length_0_conv mult.commute[of _ "8::int"] mult.commute[of _ "2::int"] conj_assoc)

lemma find_sameGraph:
  "map (\<lambda>f. (name f, calls f, calledBy f)) fs = map (\<lambda>f. (name f, calls f, calledBy f)) gs \<Longrightarrow>
   (case find (\<lambda>f. name f = c) fs of None \<Rightarrow> False | Some g \<Rightarrow> length (calledBy g) > 0)
   = (case find (\<lambda>f. name f = c) gs of None \<Rightarrow> False | Some g \<Rightarrow> length (calledBy g) > 0)"
proof (induction fs arbitrary: gs)
  case Nil
  then show ?case by simp
next
  case (Cons f fs)
  then obtain g gs' where gs: "gs = g # gs'" by (cases gs) auto
  with Cons.prems have h: "name f = name g" "calledBy f = calledBy g"
    and t: "map (\<lambda>f. (name f, calls f, calledBy f)) fs = map (\<lambda>f. (name f, calls f, calledBy f)) gs'"
    by auto
  from Cons.IH[OF t] h gs show ?case by simp
qed

lemma calleesAlsoCalled_sameGraph:
  "sameGraph fs gs \<Longrightarrow> calleesAlsoCalled fs func = calleesAlsoCalled gs func"
  unfolding calleesAlsoCalled_def sameGraph_def
  by (simp only: find_sameGraph[of fs gs])

lemma scoreOf_sameGraph:
  "sameGraph fs gs \<Longrightarrow> scoreOf fs exps func = scoreOf gs exps func"
  unfolding scoreOf_def by (simp only: calleesAlsoCalled_sameGraph[of fs gs])

lemma scoreOf_cong:
  assumes "name f = name g" "calls f = calls g" "calledBy f = calledBy g"
  shows "scoreOf fs exps f = scoreOf fs exps g"
  unfolding scoreOf_def calleesAlsoCalled_def by (simp only: assms)

lemma scoreOf_significance_update:
  "scoreOf fs exps (func\<lparr>significance := s\<rparr>) = scoreOf fs exps func"
  by (rule scoreOf_cong) simp_all

lemma sameGraph_withScore:
  "sameGraph (map snd (map (withScore fs exps) (take n m) @ drop n m)) (map snd m)"
proof -
  let ?F = "\<lambda>f. (name f, calls f, calledBy f)"
  have a: "map ?F (map snd (map (withScore fs exps) xs)) = map ?F (map snd xs)" for xs
    by (induction xs) (simp_all add: withScore_def)
  have "map ?F (map snd (map (withScore fs exps) (take n m) @ drop n m))
        = map ?F (map snd (map (withScore fs exps) (take n m))) @ map ?F (map snd (drop n m))"
    by (simp only: map_append)
  also have "\<dots> = map ?F (map snd (take n m @ drop n m))"
    by (simp only: a map_append)
  finally show ?thesis by (simp only: sameGraph_def append_take_drop_id)
qed

lemma scoreLoop:
  "n \<le> length m \<Longrightarrow>
   foldl (scoreStep exps) m [0..<n] = map (withScore (map snd m) exps) (take n m) @ drop n m"
proof (induction n)
  case 0
  then show ?case by simp
next
  case (Suc n)
  let ?g = "withScore (map snd m) exps"
  let ?r = "map ?g (take n m) @ drop n m"
  from Suc.prems have n: "n < length m" by simp
  have IH: "foldl (scoreStep exps) m [0..<n] = ?r" using Suc by simp
  have rn: "?r ! n = m ! n" using n by (simp add: nth_append)
  have sc: "scoreOf (map snd ?r) exps (snd (m ! n)) = scoreOf (map snd m) exps (snd (m ! n))"
    by (rule scoreOf_sameGraph[OF sameGraph_withScore])
  have "scoreStep exps ?r n = ?r[n := ?g (m ! n)]"
    unfolding scoreStep_def rn sc by (simp only: withScore_def)
  also have "\<dots> = map ?g (take n m) @ (?g (m ! n) # drop (Suc n) m)"
    using n by (simp add: list_update_append Cons_nth_drop_Suc[symmetric])
  also have "\<dots> = map ?g (take (Suc n) m) @ drop (Suc n) m"
    using n by (simp add: take_Suc_conv_app_nth)
  finally have "scoreStep exps ?r n = map ?g (take (Suc n) m) @ drop (Suc n) m" .
  then show ?case using IH by simp
qed

lemma calculateSignificance_map:
  "functions_A (calculateSignificance a)
   = map (withScore (map snd (functions_A a)) (exports a)) (functions_A a)"
  by (simp add: calculateSignificance_def scoreLoop)

lemma calculateSignificance_exports: "exports (calculateSignificance a) = exports a"
  by (simp add: calculateSignificance_def)

lemma sameGraph_scored:
  "sameGraph (map snd (functions_A (calculateSignificance a))) (map snd (functions_A a))"
  using sameGraph_withScore[of "map snd (functions_A a)" "exports a" "length (functions_A a)" "functions_A a"]
  by (simp add: calculateSignificance_map)

lemma sameGraph_names: "sameGraph fs gs \<Longrightarrow> map name fs = map name gs"
proof -
  assume "sameGraph fs gs"
  then have "map fst (map (\<lambda>f. (name f, calls f, calledBy f)) fs)
           = map fst (map (\<lambda>f. (name f, calls f, calledBy f)) gs)"
    by (simp only: sameGraph_def)
  then show ?thesis by (simp add: comp_def)
qed

lemma scoreOf_sum:
  "scoreOf fs exps func =
     max 0 (min 100
       (50
        + (if calledBy func = [] then 40 else 0)
        + (if length (calledBy func) > 0 then min (8 * int (length (calledBy func))) 30 else 0)
        + (if length (calls func) > 3 then min (2 * int (length (calls func))) 10 else 0)
        - (if length (calledBy func) > 3 then 20 else 0)
        - (if length (calls func) > 0 \<and> length (calledBy func) > 0
              \<and> calleesAlsoCalled fs func > 2 then 15 else 0)
        + (if name func \<in> set exps then 20 else 0)))"
  unfolding scoreOf_def Let_def
  by (simp only: if_if_sub_int if_if_zero_int if_add_int if_sub_int
        length_0_conv mult.commute[of _ "8::int"] mult.commute[of _ "2::int"] conj_assoc)

lemma scoreOf_no_callers_ge:
  assumes "calledBy func = []"
  shows "90 \<le> scoreOf fs exps func"
proof -
  have a: "0 \<le> (if length (calls func) > 3 then min (2 * int (length (calls func))) 10 else 0)"
    by simp
  have b: "0 \<le> (if name func \<in> set exps then 20 else (0::int))"
    by simp
  show ?thesis
    unfolding scoreOf_sum using assms a b by simp
qed

lemma scoreOf_one_caller_le:
  assumes "calledBy func = [c]"
  shows "scoreOf fs exps func \<le> 88"
proof -
  have a: "(if length (calls func) > 3 then min (2 * int (length (calls func))) 10 else 0) \<le> 10"
    by simp
  have b: "(if name func \<in> set exps then 20 else (0::int)) \<le> 20"
    by simp
  have d: "0 \<le> (if length (calls func) > 0 \<and> length (calledBy func) > 0
              \<and> calleesAlsoCalled fs func > 2 then 15 else (0::int))"
    by simp
  show ?thesis
    unfolding scoreOf_sum using assms a b d by simp
qed

text \<open>
  Claim C3, as the code has it. A record without callers scores at least 90 (base 50 plus
  the entry-point bonus 40); the same record with exactly one caller scores at most 88
  (base 50, hub bonus 8, at most 10 for its calls and 20 for being exported). Going
  from no caller to one caller, every other input of the scorer fixed, strictly lowers
  the significance.
\<close>

theorem first_caller_lowers_significance:
  "scoreOf fs exps (func\<lparr>calledBy := [c]\<rparr>) < scoreOf fs exps (func\<lparr>calledBy := []\<rparr>)"
proof -
  have "scoreOf fs exps (func\<lparr>calledBy := [c]\<rparr>) \<le> 88"
    by (rule scoreOf_one_caller_le[of _ c]) simp
  moreover have "90 \<le> scoreOf fs exps (func\<lparr>calledBy := []\<rparr>)"
    by (rule scoreOf_no_callers_ge) simp
  ultimately show ?thesis by linarith
qed

text \<open>
  The record \<open>f\<close> without calls, not exported: 90 without callers, 58 once \<open>g\<close>
  calls it. The significance does not increase.
\<close>

theorem first_caller_raises_significance_counterexample:
  "scoreOf [funcNode ''f'' [] [], funcNode ''g'' [] []] [] (funcNode ''f'' [] []) = 90
   \<and> scoreOf [funcNode ''f'' [] [], funcNode ''g'' [] []] []
         ((funcNode ''f'' [] [])\<lparr>calledBy := [''g'']\<rparr>) = 58
   \<and> \<not> (scoreOf [funcNode ''f'' [] [], funcNode ''g'' [] []] [] (funcNode ''f'' [] [])
        < scoreOf [funcNode ''f'' [] [], funcNode ''g'' [] []] []
            ((funcNode ''f'' [] [])\<lparr>calledBy := [''g'']\<rparr>))"
  by (simp add: scoreOf_def funcNode_def)

section \<open>The callers lists are the inverse of the calls\<close>

lemma stable_fst: "stable fst"
  by (auto simp: stable_def erase_def)

lemma stable_name: "stable (\<lambda>e. name (snd e))"
proof -
  have "name (snd e) = name (snd (erase e))" for e :: "string \<times> FunctionNode"
    by (simp add: erase_def)
  then show ?thesis unfolding stable_def by metis
qed

lemma erase_calls: "erase e = erase e' \<Longrightarrow> calls (snd e) = calls (snd e')"
proof -
  have "calls (snd e) = calls (snd (erase e))" for e :: "string \<times> FunctionNode"
    by (simp add: erase_def)
  then show "erase e = erase e' \<Longrightarrow> calls (snd e) = calls (snd e')" by metis
qed

subsection \<open>findIndex\<close>

lemma findIndex_Some:
  "findIndex P xs = Some j \<Longrightarrow> j < length xs \<and> P (xs ! j) \<and> (\<forall>i<j. \<not> P (xs ! i))"
proof (induction xs arbitrary: j)
  case Nil
  then show ?case by simp
next
  case (Cons x xs)
  show ?case
  proof (cases "P x")
    case True
    with Cons.prems show ?thesis by simp
  next
    case False
    with Cons.prems obtain j' where j': "findIndex P xs = Some j'" "j = Suc j'"
      by auto
    from Cons.IH[OF j'(1)] False j'(2) show ?thesis
      by (auto simp: nth_Cons split: nat.splits)
  qed
qed

lemma findIndex_None: "findIndex P xs = None \<longleftrightarrow> (\<forall>x \<in> set xs. \<not> P x)"
  by (induction xs) auto

lemma distinct_map_nth_eq:
  "distinct (map \<kappa> m) \<Longrightarrow> i < length m \<Longrightarrow> j < length m \<Longrightarrow> \<kappa> (m ! i) = \<kappa> (m ! j) \<Longrightarrow> i = j"
  using nth_eq_iff_index_eq[of "map \<kappa> m" i j] by simp

lemma findIndex_distinct:
  assumes "distinct (map \<kappa> m)" "i < length m"
  shows "findIndex (\<lambda>e. \<kappa> e = c) m = Some j \<longleftrightarrow> (j < length m \<and> \<kappa> (m ! j) = c)"
proof
  assume "findIndex (\<lambda>e. \<kappa> e = c) m = Some j"
  from findIndex_Some[OF this] show "j < length m \<and> \<kappa> (m ! j) = c" by simp
next
  assume j: "j < length m \<and> \<kappa> (m ! j) = c"
  then have "m ! j \<in> set m" by simp
  with j have "findIndex (\<lambda>e. \<kappa> e = c) m \<noteq> None"
    unfolding findIndex_None by blast
  then obtain j' where j': "findIndex (\<lambda>e. \<kappa> e = c) m = Some j'" by auto
  from findIndex_Some[OF j'] have "j' < length m" "\<kappa> (m ! j') = c" by simp_all
  with j assms(1) have "j' = j"
    by (intro distinct_map_nth_eq[of \<kappa> m]) simp_all
  with j' show "findIndex (\<lambda>e. \<kappa> e = c) m = Some j" by simp
qed

subsection \<open>One push\<close>

lemma length_pushAt: "length (pushAt caller m j) = length m"
  by (simp add: pushAt_def)

lemma erase_pushAt: "map erase (pushAt caller m j) = map erase m"
proof (cases "j < length m")
  case True
  have "erase (fst (m ! j), (snd (m ! j))\<lparr>calledBy := calledBy (snd (m ! j)) @ [caller]\<rparr>) = erase (m ! j)"
    by (simp add: erase_def)
  with True show ?thesis
    by (simp add: pushAt_def map_update list_update_same_conv)
next
  case False
  then show ?thesis by (simp add: pushAt_def list_update_beyond)
qed

lemma nth_pushAt:
  assumes "i < length m"
  shows "calledBy (snd (pushAt caller m j ! i)) =
           (if i = j \<and> caller \<notin> set (calledBy (snd (m ! i)))
            then calledBy (snd (m ! i)) @ [caller] else calledBy (snd (m ! i)))"
  using assms by (simp add: pushAt_def nth_list_update)

lemma length_stepK: "length (stepK \<kappa> caller m c) = length m"
  by (simp add: stepK_def length_pushAt split: option.splits)

lemma erase_stepK: "map erase (stepK \<kappa> caller m c) = map erase m"
  by (simp add: stepK_def erase_pushAt split: option.splits)

lemma nth_stepK:
  assumes "distinct (map \<kappa> m)" "i < length m"
  shows "calledBy (snd (stepK \<kappa> caller m c ! i)) =
           (if \<kappa> (m ! i) = c \<and> caller \<notin> set (calledBy (snd (m ! i)))
            then calledBy (snd (m ! i)) @ [caller] else calledBy (snd (m ! i)))"
proof (cases "findIndex (\<lambda>e. \<kappa> e = c) m")
  case None
  with assms(2) have "\<kappa> (m ! i) \<noteq> c"
    unfolding findIndex_None by auto
  with None show ?thesis by (simp add: stepK_def)
next
  case (Some j)
  then have j: "j < length m" "\<kappa> (m ! j) = c"
    using findIndex_distinct[OF assms, of c j] by simp_all
  have "i = j \<longleftrightarrow> \<kappa> (m ! i) = c"
    using j assms distinct_map_nth_eq[of \<kappa> m i j] by auto
  with Some assms(2) show ?thesis
    by (simp add: stepK_def nth_pushAt)
qed

lemma stable_map: "stable \<kappa> \<Longrightarrow> map erase r = map erase m \<Longrightarrow> map \<kappa> r = map \<kappa> m"
proof (induction r arbitrary: m)
  case Nil
  then show ?case by simp
next
  case (Cons e r)
  then obtain e' m' where m: "m = e' # m'" by (cases m) auto
  with Cons.prems have e: "erase e = erase e'" and r: "map erase r = map erase m'" by simp_all
  from e Cons.prems(1) have "\<kappa> e = \<kappa> e'" unfolding stable_def by blast
  moreover have "map \<kappa> r = map \<kappa> m'" by (rule Cons.IH[OF Cons.prems(1) r])
  ultimately show ?case using m by simp
qed

subsection \<open>The two loops\<close>

lemma erase_nth:
  assumes "map erase r = map erase m" "i < length m"
  shows "erase (r ! i) = erase (m ! i)"
proof -
  from assms(1) have l: "length r = length m" by (rule map_eq_imp_length_eq)
  from assms(1) have "map erase r ! i = map erase m ! i" by simp
  with l assms(2) show ?thesis by simp
qed

lemma stable_nth:
  assumes "stable \<kappa>" "map erase r = map erase m" "i < length m"
  shows "\<kappa> (r ! i) = \<kappa> (m ! i)"
  using erase_nth[OF assms(2,3)] assms(1) unfolding stable_def by blast

lemma fold_stepK:
  assumes "stable \<kappa>" "distinct (map \<kappa> m)"
  shows "map erase (foldl (stepK \<kappa> caller) m cs) = map erase m \<and>
         (\<forall>i<length m.
            set (calledBy (snd (foldl (stepK \<kappa> caller) m cs ! i)))
              = set (calledBy (snd (m ! i))) \<union> (if \<kappa> (m ! i) \<in> set cs then {caller} else {})
            \<and> (distinct (calledBy (snd (m ! i)))
                 \<longrightarrow> distinct (calledBy (snd (foldl (stepK \<kappa> caller) m cs ! i)))))"
  using assms(2)
proof (induction cs arbitrary: m)
  case Nil
  then show ?case by simp
next
  case (Cons c cs)
  let ?m' = "stepK \<kappa> caller m c"
  have e: "map erase ?m' = map erase m" by (rule erase_stepK)
  have k: "map \<kappa> ?m' = map \<kappa> m" by (rule stable_map[OF assms(1) e])
  with Cons.prems have d: "distinct (map \<kappa> ?m')" by simp
  have l: "length ?m' = length m" by (rule length_stepK)
  note IH = Cons.IH[OF d]
  show ?case
  proof (intro conjI allI impI)
    from IH e show "map erase (foldl (stepK \<kappa> caller) m (c # cs)) = map erase m" by simp
  next
    fix i assume i: "i < length m"
    have ki: "\<kappa> (?m' ! i) = \<kappa> (m ! i)" by (rule stable_nth[OF assms(1) e i])
    have s: "set (calledBy (snd (?m' ! i)))
             = set (calledBy (snd (m ! i))) \<union> (if \<kappa> (m ! i) = c then {caller} else {})"
      unfolding nth_stepK[OF Cons.prems i] by auto
    from IH i l have "set (calledBy (snd (foldl (stepK \<kappa> caller) ?m' cs ! i)))
        = set (calledBy (snd (?m' ! i))) \<union> (if \<kappa> (?m' ! i) \<in> set cs then {caller} else {})"
      by simp
    with s ki show "set (calledBy (snd (foldl (stepK \<kappa> caller) m (c # cs) ! i)))
        = set (calledBy (snd (m ! i))) \<union> (if \<kappa> (m ! i) \<in> set (c # cs) then {caller} else {})"
      by auto
  next
    fix i assume i: "i < length m" and di: "distinct (calledBy (snd (m ! i)))"
    have "distinct (calledBy (snd (?m' ! i)))"
      unfolding nth_stepK[OF Cons.prems i] using di by simp
    with IH i l show "distinct (calledBy (snd (foldl (stepK \<kappa> caller) m (c # cs) ! i)))"
      by simp
  qed
qed

lemma fold_linkK:
  assumes "stable \<kappa>" "distinct (map \<kappa> m)" "n \<le> length m"
  shows "map erase (foldl (linkK \<kappa>) m [0..<n]) = map erase m \<and>
         (\<forall>i<length m.
            set (calledBy (snd (foldl (linkK \<kappa>) m [0..<n] ! i)))
              = set (calledBy (snd (m ! i)))
                \<union> {\<kappa> (m ! a) | a. a < n \<and> \<kappa> (m ! i) \<in> set (calls (snd (m ! a)))}
            \<and> (distinct (calledBy (snd (m ! i)))
                 \<longrightarrow> distinct (calledBy (snd (foldl (linkK \<kappa>) m [0..<n] ! i)))))"
  using assms(3)
proof (induction n)
  case 0
  then show ?case by simp
next
  case (Suc n)
  let ?r = "foldl (linkK \<kappa>) m [0..<n]"
  let ?r' = "foldl (linkK \<kappa>) m [0..<Suc n]"
  from Suc.prems have n: "n < length m" by simp
  from Suc have IH: "map erase ?r = map erase m"
    "\<And>i. i < length m \<Longrightarrow> set (calledBy (snd (?r ! i)))
              = set (calledBy (snd (m ! i)))
                \<union> {\<kappa> (m ! a) | a. a < n \<and> \<kappa> (m ! i) \<in> set (calls (snd (m ! a)))}"
    "\<And>i. i < length m \<Longrightarrow> distinct (calledBy (snd (m ! i))) \<Longrightarrow> distinct (calledBy (snd (?r ! i)))"
    by simp_all
  from IH(1) have l: "length ?r = length m" by (rule map_eq_imp_length_eq)
  have k: "map \<kappa> ?r = map \<kappa> m" by (rule stable_map[OF assms(1) IH(1)])
  with assms(2) have d: "distinct (map \<kappa> ?r)" by simp
  have kn: "\<kappa> (?r ! n) = \<kappa> (m ! n)" by (rule stable_nth[OF assms(1) IH(1) n])
  have cn: "calls (snd (?r ! n)) = calls (snd (m ! n))"
    by (rule erase_calls[OF erase_nth[OF IH(1) n]])
  have r': "?r' = foldl (stepK \<kappa> (\<kappa> (m ! n))) ?r (calls (snd (m ! n)))"
    by (simp add: linkK_def kn cn)
  note F = fold_stepK[OF assms(1) d, of "\<kappa> (m ! n)" "calls (snd (m ! n))", folded r']
  show ?case
  proof (intro conjI allI impI)
    from F IH(1) show "map erase ?r' = map erase m" by simp
  next
    fix i assume i: "i < length m"
    have ki: "\<kappa> (?r ! i) = \<kappa> (m ! i)" by (rule stable_nth[OF assms(1) IH(1) i])
    from F i l have "set (calledBy (snd (?r' ! i)))
        = set (calledBy (snd (?r ! i)))
          \<union> (if \<kappa> (?r ! i) \<in> set (calls (snd (m ! n))) then {\<kappa> (m ! n)} else {})"
      by simp
    also have "\<dots> = set (calledBy (snd (m ! i)))
          \<union> {\<kappa> (m ! a) | a. a < n \<and> \<kappa> (m ! i) \<in> set (calls (snd (m ! a)))}
          \<union> (if \<kappa> (m ! i) \<in> set (calls (snd (m ! n))) then {\<kappa> (m ! n)} else {})"
      by (simp only: IH(2)[OF i] ki)
    also have "\<dots> = set (calledBy (snd (m ! i)))
          \<union> {\<kappa> (m ! a) | a. a < Suc n \<and> \<kappa> (m ! i) \<in> set (calls (snd (m ! a)))}"
      by (auto simp: less_Suc_eq)
    finally show "set (calledBy (snd (?r' ! i)))
        = set (calledBy (snd (m ! i)))
          \<union> {\<kappa> (m ! a) | a. a < Suc n \<and> \<kappa> (m ! i) \<in> set (calls (snd (m ! a)))}" .
  next
    fix i assume i: "i < length m" and di: "distinct (calledBy (snd (m ! i)))"
    from F i l IH(3)[OF i di] show "distinct (calledBy (snd (?r' ! i)))" by simp
  qed
qed

lemma loopK_erase:
  assumes "stable \<kappa>" "distinct (map \<kappa> m)"
  shows "map erase (loopK \<kappa> m) = map erase m"
  using fold_linkK[OF assms, of "length m"] by (simp add: loopK_def)

lemma loopK_inverse:
  assumes "stable \<kappa>" "distinct (map \<kappa> m)" "\<forall>e \<in> set m. calledBy (snd e) = []"
      and "e \<in> set (loopK \<kappa> m)"
  shows "set (calledBy (snd e))
           = {\<kappa> a | a. a \<in> set (loopK \<kappa> m) \<and> \<kappa> e \<in> set (calls (snd a))}
         \<and> distinct (calledBy (snd e))"
proof -
  let ?r = "loopK \<kappa> m"
  have er: "map erase ?r = map erase m" by (rule loopK_erase[OF assms(1,2)])
  then have l: "length ?r = length m" by (rule map_eq_imp_length_eq)
  from assms(4) obtain i where i: "i < length m" "e = ?r ! i"
    using l by (auto simp: in_set_conv_nth)
  have k: "\<And>a. a < length m \<Longrightarrow> \<kappa> (?r ! a) = \<kappa> (m ! a)"
    by (rule stable_nth[OF assms(1) er])
  have c: "\<And>a. a < length m \<Longrightarrow> calls (snd (?r ! a)) = calls (snd (m ! a))"
    by (rule erase_calls[OF erase_nth[OF er]])
  from assms(3) i(1) have z: "calledBy (snd (m ! i)) = []" by simp
  from fold_linkK[OF assms(1,2), of "length m"] i(1) z
  have s: "set (calledBy (snd (?r ! i)))
        = {\<kappa> (m ! a) | a. a < length m \<and> \<kappa> (m ! i) \<in> set (calls (snd (m ! a)))}"
    and d: "distinct (calledBy (snd (?r ! i)))"
    by (simp_all add: loopK_def)
  have "{\<kappa> (m ! a) | a. a < length m \<and> \<kappa> (m ! i) \<in> set (calls (snd (m ! a)))}
        = {\<kappa> a | a. a \<in> set ?r \<and> \<kappa> (?r ! i) \<in> set (calls (snd a))}"
    (is "?A = ?B")
  proof
    show "?A \<subseteq> ?B"
    proof
      fix x assume "x \<in> ?A"
      then obtain a where a: "a < length m" "x = \<kappa> (m ! a)" "\<kappa> (m ! i) \<in> set (calls (snd (m ! a)))"
        by blast
      from a(1) l have "?r ! a \<in> set ?r" by simp
      moreover from a k[OF a(1)] have "x = \<kappa> (?r ! a)" by simp
      moreover from a c[OF a(1)] k[OF i(1)] have "\<kappa> (?r ! i) \<in> set (calls (snd (?r ! a)))" by simp
      ultimately show "x \<in> ?B" by blast
    qed
    show "?B \<subseteq> ?A"
    proof
      fix x assume "x \<in> ?B"
      then obtain b where b: "b \<in> set ?r" "x = \<kappa> b" "\<kappa> (?r ! i) \<in> set (calls (snd b))"
        by blast
      from b(1) l obtain a where a: "a < length m" "b = ?r ! a"
        by (auto simp: in_set_conv_nth)
      from a b k[OF a(1)] c[OF a(1)] k[OF i(1)]
      have "x = \<kappa> (m ! a)" "\<kappa> (m ! i) \<in> set (calls (snd (m ! a)))" by simp_all
      with a(1) show "x \<in> ?A" by blast
    qed
  qed
  with s d i(2) show ?thesis by simp
qed

subsection \<open>map_set, map_get\<close>

lemma keys_map_set:
  "map fst (map_set m k v) = (if k \<in> set (map fst m) then map fst m else map fst m @ [k])"
proof (induction m)
  case Nil
  then show ?case by simp
next
  case (Cons e m)
  obtain k' v' where e: "e = (k', v')" by (cases e)
  show ?case
  proof (cases "k' = k")
    case True
    with e show ?thesis by simp
  next
    case False
    with e Cons.IH show ?thesis by (cases "k \<in> set (map fst m)") auto
  qed
qed

lemma distinct_map_set: "distinct (map fst m) \<Longrightarrow> distinct (map fst (map_set m k v))"
  by (simp add: keys_map_set)

lemma set_map_set_subset: "set (map_set m k v) \<subseteq> insert (k, v) (set m)"
  by (induction m) (auto split: if_splits)

lemma set_map_set_distinct:
  "distinct (map fst m) \<Longrightarrow> set (map_set m k v) = insert (k, v) {e \<in> set m. fst e \<noteq> k}"
proof (induction m)
  case Nil
  then show ?case by simp
next
  case (Cons e m)
  obtain k' v' where e: "e = (k', v')" by (cases e)
  from Cons.prems e have d: "k' \<notin> fst ` set m" "distinct (map fst m)" by simp_all
  show ?case
  proof (cases "k' = k")
    case True
    with d(1) have "{x \<in> set m. fst x \<noteq> k} = set m" by force
    moreover have "{x \<in> set (e # m). fst x \<noteq> k} = {x \<in> set m. fst x \<noteq> k}"
      using True e by auto
    moreover have "set (map_set (e # m) k v) = insert (k, v) (set m)"
      using True e by simp
    ultimately show ?thesis by simp
  next
    case False
    have "set (map_set (e # m) k v) = insert (k', v') (set (map_set m k v))"
      using False e by simp
    also have "\<dots> = insert (k', v') (insert (k, v) {x \<in> set m. fst x \<noteq> k})"
      by (simp only: Cons.IH[OF d(2)])
    also have "\<dots> = insert (k, v) {x \<in> set (e # m). fst x \<noteq> k}"
      using False e by auto
    finally show ?thesis .
  qed
qed

lemma map_of_findIndex:
  "map_of m c = (case findIndex (\<lambda>e. fst e = c) m of None \<Rightarrow> None | Some j \<Rightarrow> Some (snd (m ! j)))"
  by (induction m) (auto split: option.splits)

lemma map_set_findIndex:
  "findIndex (\<lambda>e. fst e = c) m = Some j \<Longrightarrow> map_set m c v = m[j := (c, v)]"
proof (induction m arbitrary: j)
  case Nil
  then show ?case by simp
next
  case (Cons e m)
  then show ?case by (cases e) (auto split: if_splits)
qed

subsection \<open>The loops of the source are instances of the generic loop\<close>

lemma pushCaller_stepK: "pushCaller caller m c = stepK (\<lambda>e. name (snd e)) caller m c"
  by (simp add: pushCaller_def stepK_def)

lemma linkCallsOf_linkK: "linkCallsOf = linkK (\<lambda>e. name (snd e))"
  by (intro ext) (simp add: linkCallsOf_def linkK_def pushCaller_stepK[abs_def])

lemma buildCalledByRelationships_loopK:
  "functions_A (buildCalledByRelationships a) = loopK (\<lambda>e. name (snd e)) (functions_A a)"
  by (simp add: buildCalledByRelationships_def loopK_def linkCallsOf_linkK)

lemma pushCallerKey_stepK: "pushCallerKey caller m c = stepK fst caller m c"
proof (cases "findIndex (\<lambda>e. fst e = c) m")
  case None
  then show ?thesis
    by (simp add: pushCallerKey_def stepK_def map_get_def map_of_findIndex)
next
  case (Some j)
  from findIndex_Some[OF Some] have "fst (m ! j) = c" by simp
  with Some show ?thesis
    by (simp add: pushCallerKey_def stepK_def map_get_def map_of_findIndex pushAt_def
        map_set_findIndex)
qed

lemma linkKeyCallsOf_linkK: "linkKeyCallsOf = linkK fst"
  by (intro ext) (simp add: linkKeyCallsOf_def linkK_def pushCallerKey_stepK[abs_def])

lemma rebuildCalledBy_loopK: "rebuildCalledBy m = loopK fst m"
  by (simp add: rebuildCalledBy_def loopK_def linkKeyCallsOf_linkK)

lemma wellKeyed_map_set:
  assumes "wellKeyed m" "name v = k"
  shows "wellKeyed (map_set m k v)"
proof -
  have "\<forall>e \<in> set (map_set m k v). name (snd e) = fst e"
    using set_map_set_subset[of m k v] assms by (auto simp: wellKeyed_def)
  with assms(1) show ?thesis by (simp add: wellKeyed_def distinct_map_set)
qed

lemma emptied_map_set:
  assumes "emptied m k'" "calledBy v = []"
  shows "emptied (map_set m k v) k'"
  using set_map_set_subset[of m k v] assms unfolding emptied_def by blast

lemma emptied_map_set_same:
  assumes "distinct (map fst m)" "calledBy v = []"
  shows "emptied (map_set m k v) k"
  unfolding emptied_def set_map_set_distinct[OF assms(1)] using assms(2) by auto

subsection \<open>One file\<close>

lemma traverse_inv:
  assumes "wellKeyed (functions_A a)" "\<forall>k. emptied (functions_A a) k"
  shows "wellKeyed (functions_A (traverse a x)) \<and> (\<forall>k. emptied (functions_A (traverse a x)) k)"
proof (cases x)
  case (Function_Found u)
  have "wellKeyed (functions_A (processFunction a u))"
    unfolding processFunction_def using assms(1) by (simp add: wellKeyed_map_set)
  moreover have "emptied (functions_A (processFunction a u)) k" for k
    unfolding processFunction_def using assms(2) by (simp add: emptied_map_set)
  ultimately show ?thesis using Function_Found by simp
qed (use assms in simp_all)

lemma foldl_traverse_inv:
  assumes "wellKeyed (functions_A a)" "\<forall>k. emptied (functions_A a) k"
  shows "wellKeyed (functions_A (foldl traverse a xs)) \<and> (\<forall>k. emptied (functions_A (foldl traverse a xs)) k)"
  using assms
proof (induction xs arbitrary: a)
  case Nil
  then show ?case by simp
next
  case (Cons x xs)
  from traverse_inv[OF Cons.prems, of x] Cons.IH[of "traverse a x"] show ?case by simp
qed

subsection \<open>Merge, first loop\<close>

lemma addFunction_wellKeyed: "wellKeyed m \<Longrightarrow> wellKeyed (addFunction a m e)"
  unfolding addFunction_def by (rule wellKeyed_map_set) simp_all

lemma foldl_addFunction_wellKeyed: "wellKeyed m \<Longrightarrow> wellKeyed (foldl (addFunction a) m es)"
  by (induction es arbitrary: m) (simp_all add: addFunction_wellKeyed)

lemma addAnalysis_wellKeyed:
  "wellKeyed (functions_A merged) \<Longrightarrow> wellKeyed (functions_A (addAnalysis merged a))"
  by (simp add: addAnalysis_def foldl_addFunction_wellKeyed)

lemma foldl_addAnalysis_wellKeyed:
  "wellKeyed (functions_A merged) \<Longrightarrow> wellKeyed (functions_A (foldl addAnalysis merged as))"
  by (induction as arbitrary: merged) (simp_all add: addAnalysis_wellKeyed)

lemma keys_foldl_addFunction:
  "set (map fst (foldl (addFunction a) m es))
   = set (map fst m) \<union> (\<lambda>e. uniqueKey (fst e) (fileLabel (fileName_A a))) ` set es"
proof (induction es arbitrary: m)
  case Nil
  then show ?case by simp
next
  case (Cons e es)
  have "set (map fst (addFunction a m e))
        = insert (uniqueKey (fst e) (fileLabel (fileName_A a))) (set (map fst m))"
    unfolding addFunction_def keys_map_set by auto
  with Cons.IH[of "addFunction a m e"] show ?case by auto
qed

lemma keys_foldl_addAnalysis:
  "set (map fst (functions_A (foldl addAnalysis merged as)))
   = set (map fst (functions_A merged))
     \<union> (\<Union>a \<in> set as. (\<lambda>e. uniqueKey (fst e) (fileLabel (fileName_A a))) ` set (functions_A a))"
proof (induction as arbitrary: merged)
  case Nil
  then show ?case by simp
next
  case (Cons a as)
  have "set (map fst (functions_A (addAnalysis merged a)))
        = set (map fst (functions_A merged))
          \<union> (\<lambda>e. uniqueKey (fst e) (fileLabel (fileName_A a))) ` set (functions_A a)"
    using keys_foldl_addFunction[of a "functions_A merged" "functions_A a"]
    by (simp add: addAnalysis_def)
  with Cons.IH[of "addAnalysis merged a"] show ?case by auto
qed

subsection \<open>Merge, second loop\<close>

lemma rewriteCalls_keys: "map fst (rewriteCalls l m e) = map fst m"
proof (cases "map_of m (uniqueKey (fst e) l)")
  case None
  then show ?thesis by (simp add: rewriteCalls_def map_get_def)
next
  case (Some f)
  then have "uniqueKey (fst e) l \<in> set (map fst m)"
    by (metis map_of_eq_None_iff option.distinct(1) set_map)
  with Some show ?thesis by (simp add: rewriteCalls_def map_get_def keys_map_set)
qed

lemma rewriteCalls_wellKeyed: "wellKeyed m \<Longrightarrow> wellKeyed (rewriteCalls l m e)"
proof (cases "map_of m (uniqueKey (fst e) l)")
  case None
  then show "wellKeyed m \<Longrightarrow> ?thesis" by (simp add: rewriteCalls_def map_get_def)
next
  case (Some f)
  assume w: "wellKeyed m"
  from Some have "(uniqueKey (fst e) l, f) \<in> set m" by (rule map_of_SomeD)
  with w have "name f = uniqueKey (fst e) l" by (auto simp: wellKeyed_def)
  then show ?thesis
    using Some w by (simp add: rewriteCalls_def map_get_def wellKeyed_map_set)
qed

lemma rewriteCalls_emptied: "emptied m k \<Longrightarrow> emptied (rewriteCalls l m e) k"
  by (cases "map_of m (uniqueKey (fst e) l)")
     (simp_all add: rewriteCalls_def map_get_def emptied_map_set)

lemma rewriteCalls_emptied_same:
  assumes "distinct (map fst m)"
  shows "emptied (rewriteCalls l m e) (uniqueKey (fst e) l)"
proof (cases "map_of m (uniqueKey (fst e) l)")
  case None
  then have "uniqueKey (fst e) l \<notin> fst ` set m" by (simp add: map_of_eq_None_iff)
  then have "emptied m (uniqueKey (fst e) l)" unfolding emptied_def by force
  with None show ?thesis by (simp add: rewriteCalls_def map_get_def)
next
  case (Some f)
  then show ?thesis
    by (simp add: rewriteCalls_def map_get_def emptied_map_set_same[OF assms])
qed

lemma foldl_rewriteCalls_keys: "map fst (foldl (rewriteCalls l) m es) = map fst m"
  by (induction es arbitrary: m) (simp_all add: rewriteCalls_keys)

lemma foldl_rewriteCalls_wellKeyed: "wellKeyed m \<Longrightarrow> wellKeyed (foldl (rewriteCalls l) m es)"
  by (induction es arbitrary: m) (simp_all add: rewriteCalls_wellKeyed)

lemma foldl_rewriteCalls_emptied: "emptied m k \<Longrightarrow> emptied (foldl (rewriteCalls l) m es) k"
  by (induction es arbitrary: m) (simp_all add: rewriteCalls_emptied)

lemma foldl_rewriteCalls_emptied_same:
  assumes "distinct (map fst m)" "e \<in> set es"
  shows "emptied (foldl (rewriteCalls l) m es) (uniqueKey (fst e) l)"
  using assms
proof (induction es arbitrary: m)
  case Nil
  then show ?case by simp
next
  case (Cons x xs)
  have d: "distinct (map fst (rewriteCalls l m x))"
    using Cons.prems(1) by (simp add: rewriteCalls_keys)
  show ?case
  proof (cases "e = x")
    case True
    have "emptied (rewriteCalls l m x) (uniqueKey (fst e) l)"
      unfolding True by (rule rewriteCalls_emptied_same[OF Cons.prems(1)])
    then show ?thesis by (simp add: foldl_rewriteCalls_emptied)
  next
    case False
    with Cons.prems(2) have "e \<in> set xs" by simp
    from Cons.IH[OF d this] show ?thesis by simp
  qed
qed

lemma rewriteAnalysis_keys: "map fst (rewriteAnalysis m a) = map fst m"
  by (simp add: rewriteAnalysis_def foldl_rewriteCalls_keys)

lemma foldl_rewriteAnalysis_keys: "map fst (foldl rewriteAnalysis m as) = map fst m"
  by (induction as arbitrary: m) (simp_all add: rewriteAnalysis_keys)

lemma foldl_rewriteAnalysis_wellKeyed: "wellKeyed m \<Longrightarrow> wellKeyed (foldl rewriteAnalysis m as)"
  by (induction as arbitrary: m) (simp_all add: rewriteAnalysis_def foldl_rewriteCalls_wellKeyed)

lemma foldl_rewriteAnalysis_emptied: "emptied m k \<Longrightarrow> emptied (foldl rewriteAnalysis m as) k"
  by (induction as arbitrary: m) (simp_all add: rewriteAnalysis_def foldl_rewriteCalls_emptied)

lemma foldl_rewriteAnalysis_emptied_same:
  assumes "distinct (map fst m)" "a \<in> set as" "e \<in> set (functions_A a)"
  shows "emptied (foldl rewriteAnalysis m as) (uniqueKey (fst e) (fileLabel (fileName_A a)))"
  using assms(1,2)
proof (induction as arbitrary: m)
  case Nil
  then show ?case by simp
next
  case (Cons x xs)
  have d: "distinct (map fst (rewriteAnalysis m x))"
    using Cons.prems(1) by (simp add: rewriteAnalysis_keys)
  show ?case
  proof (cases "a = x")
    case True
    have "emptied (rewriteAnalysis m x) (uniqueKey (fst e) (fileLabel (fileName_A a)))"
      unfolding True rewriteAnalysis_def
      using assms(3) Cons.prems(1) True by (intro foldl_rewriteCalls_emptied_same) simp_all
    then show ?thesis by (simp add: foldl_rewriteAnalysis_emptied)
  next
    case False
    with Cons.prems(2) have "a \<in> set xs" by simp
    from Cons.IH[OF d this] show ?thesis by simp
  qed
qed

lemma rewritten_wellKeyed: "wellKeyed (rewritten as)"
proof -
  have "wellKeyed (functions_A emptyMerged)" by (simp add: emptyMerged_def wellKeyed_def)
  then show ?thesis
    unfolding rewritten_def
    by (intro foldl_rewriteAnalysis_wellKeyed foldl_addAnalysis_wellKeyed)
qed

lemma rewritten_keys:
  "set (map fst (rewritten as))
   = (\<Union>a \<in> set as. (\<lambda>e. uniqueKey (fst e) (fileLabel (fileName_A a))) ` set (functions_A a))"
  unfolding rewritten_def foldl_rewriteAnalysis_keys keys_foldl_addAnalysis
  by (simp add: emptyMerged_def)

lemma rewritten_emptied: "emptied (rewritten as) k"
proof (cases "k \<in> set (map fst (rewritten as))")
  case False
  then show ?thesis unfolding emptied_def by force
next
  case True
  then obtain a e where ae: "a \<in> set as" "e \<in> set (functions_A a)"
    "k = uniqueKey (fst e) (fileLabel (fileName_A a))"
    unfolding rewritten_keys by blast
  have "distinct (map fst (functions_A (foldl addAnalysis emptyMerged as)))"
    using foldl_addAnalysis_wellKeyed[of emptyMerged as]
    by (simp add: emptyMerged_def wellKeyed_def)
  from foldl_rewriteAnalysis_emptied_same[OF this ae(1,2)] ae(3)
  show ?thesis by (simp add: rewritten_def)
qed

lemma mergeAnalyses_functions:
  "functions_A (mergeAnalyses as)
   = map (withScore (map snd (loopK fst (rewritten as)))
            (exports (foldl addAnalysis emptyMerged as)))
         (loopK fst (rewritten as))"
  by (simp add: mergeAnalyses_def Let_def calculateSignificance_map rewritten_def
      rebuildCalledBy_loopK)

lemma analyzeDocument_functions:
  "\<exists>m exps. wellKeyed m \<and> (\<forall>k. emptied m k) \<and>
     functions_A (analyzeDocument fn lang found)
       = map (withScore (map snd (loopK (\<lambda>e. name (snd e)) m)) exps) (loopK (\<lambda>e. name (snd e)) m)"
proof -
  let ?init = "\<lparr>fileName_A = fn, language = lang, functions_A = [], imports_A = [], exports = []\<rparr>"
  let ?a = "foldl traverse ?init found"
  have "wellKeyed (functions_A ?init)" "\<forall>k. emptied (functions_A ?init) k"
    by (simp_all add: wellKeyed_def emptied_def)
  from foldl_traverse_inv[OF this, of found]
  have "wellKeyed (functions_A ?a)" "\<forall>k. emptied (functions_A ?a) k" by simp_all
  moreover have "functions_A (analyzeDocument fn lang found)
       = map (withScore (map snd (loopK (\<lambda>e. name (snd e)) (functions_A ?a)))
                (exports (buildCalledByRelationships ?a)))
             (loopK (\<lambda>e. name (snd e)) (functions_A ?a))"
    by (simp add: analyzeDocument_def calculateSignificance_map buildCalledByRelationships_loopK)
  ultimately show ?thesis by blast
qed

lemma loopK_graph:
  assumes st: "stable \<kappa>" and wk: "wellKeyed m" and em: "\<forall>k. emptied m k"
      and kf: "\<And>e. name (snd e) = fst e \<Longrightarrow> \<kappa> e = fst e"
      and G: "G = map (withScore fs exps) (loopK \<kappa> m)"
      and A: "(ka, A) \<in> set G" and B: "(kb, B) \<in> set G"
  shows "(ka \<in> set (calledBy B) \<longleftrightarrow> kb \<in> set (calls A))
         \<and> name A = ka \<and> distinct (calledBy B)
         \<and> set (calledBy B) = {k. \<exists>F. (k, F) \<in> set G \<and> kb \<in> set (calls F)}"
proof -
  let ?r = "loopK \<kappa> m"
  from wk have dm: "distinct (map fst m)" and nm: "\<forall>e \<in> set m. name (snd e) = fst e"
    by (simp_all add: wellKeyed_def)
  from nm kf have mk: "map \<kappa> m = map fst m" by simp
  have dk: "distinct (map \<kappa> m)" unfolding mk by (rule dm)
  from em have noC: "\<forall>e \<in> set m. calledBy (snd e) = []"
    unfolding emptied_def by (metis prod.collapse)
  have er: "map erase ?r = map erase m" by (rule loopK_erase[OF st dk])
  have kr: "map fst ?r = map fst m" by (rule stable_map[OF stable_fst er])
  have "map (\<lambda>e. name (snd e)) ?r = map (\<lambda>e. name (snd e)) m" by (rule stable_map[OF stable_name er])
  also from nm have "\<dots> = map fst m" by simp
  finally have "map (\<lambda>e. name (snd e)) ?r = map fst ?r" by (simp only: kr)
  then have nr: "\<forall>e \<in> set ?r. name (snd e) = fst e" by (simp only: map_eq_conv)
  with kf have kfr: "\<forall>e \<in> set ?r. \<kappa> e = fst e" by blast
  have dr: "distinct (map fst ?r)" unfolding kr by (rule dm)
  have inv: "set (calledBy (snd e)) = {fst a | a. a \<in> set ?r \<and> fst e \<in> set (calls (snd a))}
             \<and> distinct (calledBy (snd e))" if "e \<in> set ?r" for e
  proof -
    from loopK_inverse[OF st dk noC that]
    have s: "set (calledBy (snd e)) = {\<kappa> a | a. a \<in> set ?r \<and> \<kappa> e \<in> set (calls (snd a))}"
      and d: "distinct (calledBy (snd e))" by simp_all
    from kfr that have "{\<kappa> a | a. a \<in> set ?r \<and> \<kappa> e \<in> set (calls (snd a))}
          = {fst a | a. a \<in> set ?r \<and> fst e \<in> set (calls (snd a))}"
      by force
    with s d show ?thesis by simp
  qed
  have inG: "(k, F) \<in> set G \<longleftrightarrow>
               (\<exists>e \<in> set ?r. k = fst e \<and> F = (snd e)\<lparr>significance := Some (scoreOf fs exps (snd e))\<rparr>)"
    for k F
    unfolding G by (auto simp: withScore_def image_iff)
  from A obtain ea where ea: "ea \<in> set ?r" "ka = fst ea"
    "A = (snd ea)\<lparr>significance := Some (scoreOf fs exps (snd ea))\<rparr>"
    unfolding inG by blast
  from B obtain eb where eb: "eb \<in> set ?r" "kb = fst eb"
    "B = (snd eb)\<lparr>significance := Some (scoreOf fs exps (snd eb))\<rparr>"
    unfolding inG by blast
  have cB: "calledBy B = calledBy (snd eb)" using eb(3) by simp
  have cA: "calls A = calls (snd ea)" using ea(3) by simp
  have nA: "name A = ka" using ea nr by simp
  have setB: "set (calledBy B) = {k. \<exists>F. (k, F) \<in> set G \<and> kb \<in> set (calls F)}"
  proof -
    have "{k. \<exists>F. (k, F) \<in> set G \<and> kb \<in> set (calls F)}
          = {fst a | a. a \<in> set ?r \<and> kb \<in> set (calls (snd a))}" (is "?L = ?R")
    proof
      show "?L \<subseteq> ?R"
      proof
        fix k assume "k \<in> ?L"
        then obtain F where "(k, F) \<in> set G" "kb \<in> set (calls F)" by blast
        then obtain e where "e \<in> set ?r" "k = fst e" "kb \<in> set (calls (snd e))"
          unfolding inG by auto
        then show "k \<in> ?R" by blast
      qed
      show "?R \<subseteq> ?L"
      proof
        fix k assume "k \<in> ?R"
        then obtain e where e: "e \<in> set ?r" "k = fst e" "kb \<in> set (calls (snd e))" by blast
        let ?F = "(snd e)\<lparr>significance := Some (scoreOf fs exps (snd e))\<rparr>"
        from e(1,2) have "(k, ?F) \<in> set G" unfolding inG by blast
        moreover from e(3) have "kb \<in> set (calls ?F)" by simp
        ultimately show "k \<in> ?L" by blast
      qed
    qed
    with inv[OF eb(1)] eb(2) cB show ?thesis by simp
  qed
  have "ka \<in> set (calledBy B) \<longleftrightarrow> kb \<in> set (calls A)"
  proof
    assume "ka \<in> set (calledBy B)"
    with inv[OF eb(1)] cB eb(2) obtain a where a: "a \<in> set ?r" "fst a = ka" "kb \<in> set (calls (snd a))"
      by auto
    have "(ka, snd a) \<in> set ?r" using a(1,2) by (metis prod.collapse)
    moreover have "(ka, snd ea) \<in> set ?r" using ea(1,2) by (metis prod.collapse)
    ultimately have "snd a = snd ea" using dr by (rule_tac eq_key_imp_eq_value)
    with a(2) ea(2) have "a = ea" by (simp add: prod_eq_iff)
    with a(3) cA show "kb \<in> set (calls A)" by simp
  next
    assume "kb \<in> set (calls A)"
    with cA have "kb \<in> set (calls (snd ea))" by simp
    with ea(1,2) have "\<exists>a. ka = fst a \<and> a \<in> set ?r \<and> kb \<in> set (calls (snd a))" by blast
    then have "ka \<in> {fst a | a. a \<in> set ?r \<and> kb \<in> set (calls (snd a))}" by simp
    with inv[OF eb(1)] cB eb(2) show "ka \<in> set (calledBy B)" by simp
  qed
  with nA setB inv[OF eb(1)] cB show ?thesis by simp
qed

text \<open>
  Claim C1. In the graph of a single-file analysis (\<open>analyzeDocument\<close>, which ends
  with \<open>buildCalledByRelationships\<close> and the scorer) and in the graph of
  \<open>mergeAnalyses\<close>, for any two functions \<open>A\<close> and \<open>B\<close>: the callers list of \<open>B\<close>
  contains the key of \<open>A\<close> exactly when the calls list of \<open>A\<close> contains the key of
  \<open>B\<close>. The key of a record is its name, the callers list has no duplicates, and it
  holds exactly the keys of the functions whose calls name \<open>B\<close>: nothing survives
  from before the rebuild.
\<close>

theorem callers_inverse_of_calls:
  assumes "G = functions_A (analyzeDocument fn lang found) \<or> G = functions_A (mergeAnalyses analyses)"
      and "(ka, A) \<in> set G" and "(kb, B) \<in> set G"
  shows "(ka \<in> set (calledBy B) \<longleftrightarrow> kb \<in> set (calls A))
         \<and> name A = ka \<and> distinct (calledBy B)
         \<and> set (calledBy B) = {k. \<exists>F. (k, F) \<in> set G \<and> kb \<in> set (calls F)}"
  using assms(1)
proof
  assume g: "G = functions_A (analyzeDocument fn lang found)"
  from analyzeDocument_functions[of fn lang found] obtain m exps where
    m: "wellKeyed m" "\<forall>k. emptied m k"
    "functions_A (analyzeDocument fn lang found)
       = map (withScore (map snd (loopK (\<lambda>e. name (snd e)) m)) exps) (loopK (\<lambda>e. name (snd e)) m)"
    by blast
  from g m(3) have G': "G = map (withScore (map snd (loopK (\<lambda>e. name (snd e)) m)) exps)
                             (loopK (\<lambda>e. name (snd e)) m)"
    by simp
  show ?thesis
    by (rule loopK_graph[OF stable_name m(1,2) _ G' assms(2,3)]) simp
next
  assume g: "G = functions_A (mergeAnalyses analyses)"
  have e: "\<forall>k. emptied (rewritten analyses) k" by (simp add: rewritten_emptied)
  from g have G': "G = map (withScore (map snd (loopK fst (rewritten analyses)))
                            (exports (foldl addAnalysis emptyMerged analyses)))
                         (loopK fst (rewritten analyses))"
    by (simp only: mergeAnalyses_functions)
  show ?thesis
    by (rule loopK_graph[OF stable_fst rewritten_wellKeyed e _ G' assms(2,3)]) simp
qed

text \<open>
  In the merged example workspace \<open>main::a.js\<close> calls \<open>helper::a.js\<close> and is listed
  among its callers.
\<close>

theorem callers_inverse_of_calls_witness:
  "(''main::a.js'', snd (functions_A (mergeAnalyses [fileA, fileB]) ! 0))
     \<in> set (functions_A (mergeAnalyses [fileA, fileB]))
   \<and> (''helper::a.js'', snd (functions_A (mergeAnalyses [fileA, fileB]) ! 1))
     \<in> set (functions_A (mergeAnalyses [fileA, fileB]))
   \<and> ''helper::a.js'' \<in> set (calls (snd (functions_A (mergeAnalyses [fileA, fileB]) ! 0)))
   \<and> ''main::a.js'' \<in> set (calledBy (snd (functions_A (mergeAnalyses [fileA, fileB]) ! 1)))"
proof -
  let ?G = "functions_A (mergeAnalyses [fileA, fileB])"
  have g: "?G = functions_A (analyzeDocument [] [] []) \<or> ?G = functions_A (mergeAnalyses [fileA, fileB])"
    by simp
  have a: "(''main::a.js'', snd (?G ! 0)) \<in> set ?G" by code_simp
  have b: "(''helper::a.js'', snd (?G ! 1)) \<in> set ?G" by code_simp
  have c: "''helper::a.js'' \<in> set (calls (snd (?G ! 0)))" by code_simp
  have "''main::a.js'' \<in> set (calledBy (snd (?G ! 1)))
        \<longleftrightarrow> ''helper::a.js'' \<in> set (calls (snd (?G ! 0)))"
    using callers_inverse_of_calls[OF g a b] by (rule conjunct1)
  with a b c show ?thesis by blast
qed

section \<open>Exported names in the merged graph\<close>

lemma includesSub_prefix: "prefix sub s \<Longrightarrow> includesSub sub s"
  by (cases s) simp_all

lemma includesSub_append: "includesSub sub (xs @ sub @ ys)"
  by (induction xs) (simp_all add: includesSub_prefix)

lemma includesSub_uniqueKey: "includesSub ''::'' (uniqueKey n l)"
  unfolding uniqueKey_def by (rule includesSub_append)

lemma exports_foldl_addAnalysis:
  "exports (foldl addAnalysis m as) = exports m @ concat (map exports as)"
  by (induction as arbitrary: m) (simp_all add: addAnalysis_def)

lemma mergeAnalyses_exports: "exports (mergeAnalyses as) = concat (map exports as)"
  by (simp add: mergeAnalyses_def Let_def calculateSignificance_exports
      exports_foldl_addAnalysis emptyMerged_def)

lemma mergeAnalyses_keys: "map fst (functions_A (mergeAnalyses as)) = map fst (rewritten as)"
proof -
  have d: "distinct (map fst (rewritten as))"
    using rewritten_wellKeyed[of as] by (simp add: wellKeyed_def)
  have "map fst (loopK fst (rewritten as)) = map fst (rewritten as)"
    by (rule stable_map[OF stable_fst loopK_erase[OF stable_fst d]])
  moreover have "map fst (map (withScore fs exps) r) = map fst r" for fs exps r
    by (induction r) (simp_all add: withScore_def)
  ultimately show ?thesis by (simp only: mergeAnalyses_functions)
qed

lemma mergeAnalyses_name:
  assumes "(k, f) \<in> set (functions_A (mergeAnalyses as))"
  shows "name f = k"
proof -
  have e: "\<forall>k. emptied (rewritten as) k" by (simp add: rewritten_emptied)
  from loopK_graph[OF stable_fst rewritten_wellKeyed e _ mergeAnalyses_functions assms assms]
  show ?thesis by simp
qed

lemma significance_scoreOf:
  assumes "(k, f) \<in> set (functions_A (calculateSignificance a))"
  shows "significance f =
           Some (scoreOf (map snd (functions_A (calculateSignificance a))) (exports a) f)"
proof -
  let ?fs = "map snd (functions_A a)"
  let ?gs = "map snd (functions_A (calculateSignificance a))"
  from assms obtain e where e: "e \<in> set (functions_A a)"
    and f: "f = (snd e)\<lparr>significance := Some (scoreOf ?fs (exports a) (snd e))\<rparr>"
    by (auto simp: calculateSignificance_map withScore_def)
  have "scoreOf ?fs (exports a) (snd e) = scoreOf ?gs (exports a) (snd e)"
    by (rule scoreOf_sameGraph[symmetric, OF sameGraph_scored])
  also have "\<dots> = scoreOf ?gs (exports a) f"
    unfolding f by (rule scoreOf_significance_update[symmetric])
  finally show ?thesis using f by simp
qed

lemma scoreOf_not_exported:
  assumes "name func \<notin> set exps"
  shows "scoreOf fs exps func = scoreOf fs [] func"
  unfolding scoreOf_def using assms by (simp only: if_False list.set empty_iff)

text \<open>
  Claim C10. In a workspace graph produced by \<open>mergeAnalyses\<close> (which ends with the
  scorer), when no export entry contains \<open>::\<close>, the exported-name bonus applies to no
  function: every merged record is named by its key, which contains \<open>::\<close>, so its name
  is not in the merged export list, and its significance is the score computed with
  an empty export list.
\<close>

theorem merged_functions_never_exported:
  assumes "\<forall>a \<in> set as. \<forall>x \<in> set (exports a). \<not> includesSub ''::'' x"
      and "(k, f) \<in> set (functions_A (mergeAnalyses as))"
  shows "includesSub ''::'' (name f)
         \<and> name f \<notin> set (exports (mergeAnalyses as))
         \<and> significance f =
             Some (scoreOf (map snd (functions_A (mergeAnalyses as))) [] f)"
proof -
  have n: "name f = k" by (rule mergeAnalyses_name[OF assms(2)])
  from assms(2) have "k \<in> set (map fst (rewritten as))"
    unfolding mergeAnalyses_keys[symmetric] by force
  then obtain a :: CodeAnalysis and e :: "string \<times> FunctionNode"
    where "k = uniqueKey (fst e) (fileLabel (fileName_A a))"
    unfolding rewritten_keys by auto
  then have i: "includesSub ''::'' (name f)" using n by (simp add: includesSub_uniqueKey)
  with assms(1) have ne: "name f \<notin> set (exports (mergeAnalyses as))"
    unfolding mergeAnalyses_exports by auto
  let ?m = "(foldl addAnalysis emptyMerged as)\<lparr>functions_A := rebuildCalledBy (rewritten as)\<rparr>"
  have m: "mergeAnalyses as = calculateSignificance ?m"
    by (simp add: mergeAnalyses_def Let_def rewritten_def)
  have ex: "exports ?m = exports (mergeAnalyses as)"
    by (simp add: m calculateSignificance_exports)
  from significance_scoreOf[of k f ?m] assms(2)
  have "significance f = Some (scoreOf (map snd (functions_A (mergeAnalyses as))) (exports ?m) f)"
    unfolding m by simp
  also have "scoreOf (map snd (functions_A (mergeAnalyses as))) (exports ?m) f
             = scoreOf (map snd (functions_A (mergeAnalyses as))) [] f"
    using ne unfolding ex by (rule scoreOf_not_exported)
  finally show ?thesis using ne i by simp
qed

text \<open>
  In the example workspace \<open>main\<close> is exported by its file; the merged record is named
  \<open>main::a.js\<close> and scores 90, without the bonus.
\<close>

theorem merged_functions_never_exported_witness:
  "(''main::a.js'', snd (functions_A (mergeAnalyses [fileA, fileB]) ! 0))
       \<in> set (functions_A (mergeAnalyses [fileA, fileB]))
   \<and> ''main'' \<in> set (exports (mergeAnalyses [fileA, fileB]))
   \<and> name (snd (functions_A (mergeAnalyses [fileA, fileB]) ! 0))
       \<notin> set (exports (mergeAnalyses [fileA, fileB]))
   \<and> significance (snd (functions_A (mergeAnalyses [fileA, fileB]) ! 0)) = Some 90"
proof -
  have h: "\<forall>a \<in> set [fileA, fileB]. \<forall>x \<in> set (exports a). \<not> includesSub ''::'' x"
    by (simp add: fileA_def fileB_def)
  have m: "(''main::a.js'', snd (functions_A (mergeAnalyses [fileA, fileB]) ! 0))
       \<in> set (functions_A (mergeAnalyses [fileA, fileB]))"
    by code_simp
  have e: "''main'' \<in> set (exports (mergeAnalyses [fileA, fileB]))" by code_simp
  have s: "significance (snd (functions_A (mergeAnalyses [fileA, fileB]) ! 0)) = Some 90"
    by code_simp
  from merged_functions_never_exported[OF h m] m e s show ?thesis by blast
qed

section \<open>Significance in the graphs of the analyzer\<close>

lemma loopK_wellKeyed:
  assumes st: "stable \<kappa>" and wk: "wellKeyed m"
      and kf: "\<And>e. name (snd e) = fst e \<Longrightarrow> \<kappa> e = fst e"
  shows "wellKeyed (loopK \<kappa> m)"
proof -
  let ?r = "loopK \<kappa> m"
  from wk have dm: "distinct (map fst m)" and nm: "\<forall>e \<in> set m. name (snd e) = fst e"
    by (simp_all add: wellKeyed_def)
  from nm kf have mk: "map \<kappa> m = map fst m" by simp
  have dk: "distinct (map \<kappa> m)" unfolding mk by (rule dm)
  have er: "map erase ?r = map erase m" by (rule loopK_erase[OF st dk])
  have kr: "map fst ?r = map fst m" by (rule stable_map[OF stable_fst er])
  have "map (\<lambda>e. name (snd e)) ?r = map (\<lambda>e. name (snd e)) m" by (rule stable_map[OF stable_name er])
  also from nm have "\<dots> = map fst m" by simp
  finally have "map (\<lambda>e. name (snd e)) ?r = map fst ?r" by (simp only: kr)
  then have nr: "\<forall>e \<in> set ?r. name (snd e) = fst e" by (simp only: map_eq_conv)
  have dr: "distinct (map fst ?r)" unfolding kr by (rule dm)
  from dr nr show ?thesis by (simp add: wellKeyed_def)
qed

lemma wellKeyed_names: "wellKeyed m \<Longrightarrow> distinct (map name (map snd m))"
proof -
  assume w: "wellKeyed m"
  then have "map name (map snd m) = map fst m" by (simp add: wellKeyed_def)
  with w show ?thesis by (simp only: wellKeyed_def)
qed

lemma analyzer_output_scored:
  assumes "a = analyzeDocument fn lang found \<or> a = mergeAnalyses as"
  shows "\<exists>a0. a = calculateSignificance a0 \<and> wellKeyed (functions_A a0)"
  using assms
proof
  assume a: "a = analyzeDocument fn lang found"
  let ?init = "\<lparr>fileName_A = fn, language = lang, functions_A = [], imports_A = [], exports = []\<rparr>"
  let ?t = "foldl traverse ?init found"
  have "wellKeyed (functions_A ?init)" "\<forall>k. emptied (functions_A ?init) k"
    by (simp_all add: wellKeyed_def emptied_def)
  from foldl_traverse_inv[OF this, of found] have "wellKeyed (functions_A ?t)" by simp
  then have "wellKeyed (functions_A (buildCalledByRelationships ?t))"
    unfolding buildCalledByRelationships_loopK by (intro loopK_wellKeyed stable_name) simp_all
  moreover have "a = calculateSignificance (buildCalledByRelationships ?t)"
    by (simp add: a analyzeDocument_def)
  ultimately show ?thesis by blast
next
  assume a: "a = mergeAnalyses as"
  let ?m = "(foldl addAnalysis emptyMerged as)\<lparr>functions_A := rebuildCalledBy (rewritten as)\<rparr>"
  have "wellKeyed (functions_A ?m)"
    by (simp add: rebuildCalledBy_loopK loopK_wellKeyed[OF stable_fst rewritten_wellKeyed])
  moreover have "a = calculateSignificance ?m"
    by (simp add: a mergeAnalyses_def Let_def rewritten_def)
  ultimately show ?thesis by blast
qed

text \<open>
  Claim C2. In a scored graph, the graph of a single-file analysis or of a workspace
  merge, the significance of every record is the clamp to [0, 100] of 50, plus 40
  without callers, plus min(8 * callers, 30) with callers, plus min(2 * calls, 10)
  with more than 3 calls, minus 20 with more than 3 callers, minus 15 when it has
  calls and callers and more than 2 of its callees have a caller, plus 20 when its
  name is in the export list of the graph.
\<close>

theorem significance_is_formula:
  assumes "a = analyzeDocument fn lang found \<or> a = mergeAnalyses as"
      and "(k, f) \<in> set (functions_A a)"
  shows "significance f = Some (significanceFormula (map snd (functions_A a)) (exports a) f)"
proof -
  from analyzer_output_scored[OF assms(1)] obtain a0 where
    a: "a = calculateSignificance a0" and w: "wellKeyed (functions_A a0)" by blast
  have "distinct (map name (map snd (functions_A a0)))" by (rule wellKeyed_names[OF w])
  then have d: "distinct (map name (map snd (functions_A a)))"
    unfolding a using sameGraph_names[OF sameGraph_scored, of a0] by simp
  from significance_scoreOf[of k f a0] assms(2)
  have "significance f = Some (scoreOf (map snd (functions_A a)) (exports a0) f)"
    unfolding a by simp
  also have "scoreOf (map snd (functions_A a)) (exports a0) f
             = significanceFormula (map snd (functions_A a)) (exports a0) f"
    by (rule scoreOf_formula[OF d])
  finally show ?thesis by (simp add: a calculateSignificance_exports)
qed

text \<open>
  \<open>helper::a.js\<close> of the merged example workspace has two callers and no calls:
  50 + 16 = 66.
\<close>

theorem significance_is_formula_witness:
  "(''helper::a.js'', snd (functions_A (mergeAnalyses [fileA, fileB]) ! 1))
     \<in> set (functions_A (mergeAnalyses [fileA, fileB]))
   \<and> calledBy (snd (functions_A (mergeAnalyses [fileA, fileB]) ! 1)) = [''main::a.js'', ''run::b.js'']
   \<and> significance (snd (functions_A (mergeAnalyses [fileA, fileB]) ! 1)) = Some 66
   \<and> significanceFormula (map snd (functions_A (mergeAnalyses [fileA, fileB])))
        (exports (mergeAnalyses [fileA, fileB]))
        (snd (functions_A (mergeAnalyses [fileA, fileB]) ! 1)) = 66"
proof -
  let ?a = "mergeAnalyses [fileA, fileB]"
  have g: "?a = analyzeDocument [] [] [] \<or> ?a = mergeAnalyses [fileA, fileB]" by simp
  have m: "(''helper::a.js'', snd (functions_A ?a ! 1)) \<in> set (functions_A ?a)" by code_simp
  have c: "calledBy (snd (functions_A ?a ! 1)) = [''main::a.js'', ''run::b.js'']" by code_simp
  have s: "significance (snd (functions_A ?a ! 1)) = Some 66" by code_simp
  from significance_is_formula[OF g m] m c s show ?thesis by simp
qed

section \<open>Keys of the merged graph\<close>

lemma keys_foldl_addFunction_distinct:
  "distinct (map fst m @ map (\<lambda>e. uniqueKey (fst e) (fileLabel (fileName_A a))) es) \<Longrightarrow>
   map fst (foldl (addFunction a) m es)
     = map fst m @ map (\<lambda>e. uniqueKey (fst e) (fileLabel (fileName_A a))) es"
proof (induction es arbitrary: m)
  case Nil
  then show ?case by simp
next
  case (Cons e es)
  let ?k = "uniqueKey (fst e) (fileLabel (fileName_A a))"
  from Cons.prems have nk: "?k \<notin> set (map fst m)" by auto
  then have k: "map fst (addFunction a m e) = map fst m @ [?k]"
    unfolding addFunction_def keys_map_set by simp
  from Cons.prems have "distinct (map fst (addFunction a m e)
          @ map (\<lambda>e. uniqueKey (fst e) (fileLabel (fileName_A a))) es)"
    unfolding k by simp
  from Cons.IH[OF this] k show ?case by simp
qed

lemma keys_foldl_addAnalysis_distinct:
  "distinct (map fst (functions_A m) @ allKeys as) \<Longrightarrow>
   map fst (functions_A (foldl addAnalysis m as)) = map fst (functions_A m) @ allKeys as"
proof (induction as arbitrary: m)
  case Nil
  then show ?case by (simp add: allKeys_def)
next
  case (Cons a as)
  from Cons.prems have d: "distinct (map fst (functions_A m) @ keysOf a)"
    by (auto simp: allKeys_def)
  have k: "map fst (functions_A (addAnalysis m a)) = map fst (functions_A m) @ keysOf a"
    using keys_foldl_addFunction_distinct[OF d[unfolded keysOf_def]]
    by (simp add: addAnalysis_def keysOf_def)
  from Cons.prems have "distinct (map fst (functions_A (addAnalysis m a)) @ allKeys as)"
    unfolding k by (auto simp: allKeys_def)
  from Cons.IH[OF this] k show ?case by (simp add: allKeys_def)
qed

lemma uniqueKey_collision:
  assumes "uniqueKey n l = uniqueKey n' l'" and "n \<noteq> n'"
  shows "extendsByColon n n' \<or> extendsByColon n' n"
proof -
  from assms(1) have e: "n @ ''::'' @ l = n' @ ''::'' @ l'" by (simp add: uniqueKey_def)
  then obtain us where u: "(n = n' @ us \<and> us @ ''::'' @ l = ''::'' @ l')
                         \<or> (n @ us = n' \<and> ''::'' @ l = us @ ''::'' @ l')"
    unfolding append_eq_append_conv2 by blast
  from u assms(2) have ne: "us \<noteq> []" by auto
  then obtain c cs where us: "us = c # cs" by (cases us) auto
  from u have "c = CHR '':''" unfolding us by auto
  with u us have "n = (n' @ '':'') @ cs \<or> n' = (n @ '':'') @ cs" by auto
  then show ?thesis unfolding extendsByColon_def prefix_def by blast
qed

lemma colon_free_not_extended:
  assumes "CHR '':'' \<notin> set n'"
  shows "\<not> extendsByColon n n'"
proof
  assume "extendsByColon n n'"
  then obtain r where "n' = (n @ '':'') @ r" unfolding extendsByColon_def prefix_def by blast
  then have "CHR '':'' \<in> set n'" by simp
  with assms show False by simp
qed

lemma distinct_keysOf:
  assumes "distinct (map fst (functions_A a))"
  shows "distinct (keysOf a)"
proof -
  have "inj_on (\<lambda>e. uniqueKey (fst e) (fileLabel (fileName_A a))) (set (functions_A a))"
  proof (rule inj_onI)
    fix x y assume x: "x \<in> set (functions_A a)" and y: "y \<in> set (functions_A a)"
      and "uniqueKey (fst x) (fileLabel (fileName_A a)) = uniqueKey (fst y) (fileLabel (fileName_A a))"
    then have "fst x = fst y" by (simp add: uniqueKey_def)
    with assms x y show "x = y" by (metis eq_key_imp_eq_value prod.collapse)
  qed
  moreover from assms have "distinct (functions_A a)" by (simp add: distinct_map)
  ultimately show ?thesis by (simp add: keysOf_def distinct_map)
qed

lemma keysOf_disjoint:
  assumes "localNames a \<inter> localNames b = {}"
      and "\<forall>n \<in> localNames a. \<forall>n' \<in> localNames b. \<not> extendsByColon n n'"
      and "\<forall>n \<in> localNames b. \<forall>n' \<in> localNames a. \<not> extendsByColon n n'"
  shows "set (keysOf a) \<inter> set (keysOf b) = {}"
proof (rule ccontr)
  assume "set (keysOf a) \<inter> set (keysOf b) \<noteq> {}"
  then obtain k where "k \<in> set (keysOf a)" "k \<in> set (keysOf b)" by blast
  then obtain x y where x: "x \<in> set (functions_A a)" "k = uniqueKey (fst x) (fileLabel (fileName_A a))"
    and y: "y \<in> set (functions_A b)" "k = uniqueKey (fst y) (fileLabel (fileName_A b))"
    by (auto simp: keysOf_def)
  from x(1) y(1) have m: "fst x \<in> localNames a" "fst y \<in> localNames b"
    by (simp_all add: localNames_def)
  with assms(1) have ne: "fst x \<noteq> fst y" by auto
  from x(2) y(2) have "uniqueKey (fst x) (fileLabel (fileName_A a))
      = uniqueKey (fst y) (fileLabel (fileName_A b))" by simp
  from uniqueKey_collision[OF this ne]
  have "extendsByColon (fst x) (fst y) \<or> extendsByColon (fst y) (fst x)" .
  with m assms(2,3) show False by blast
qed

lemma distinct_allKeys:
  assumes "\<forall>a \<in> set as. distinct (map fst (functions_A a))"
      and "sorted_wrt (\<lambda>a b. localNames a \<inter> localNames b = {}
                \<and> (\<forall>n \<in> localNames a. \<forall>n' \<in> localNames b. \<not> extendsByColon n n')
                \<and> (\<forall>n \<in> localNames b. \<forall>n' \<in> localNames a. \<not> extendsByColon n n')) as"
  shows "distinct (allKeys as)"
  using assms
proof (induction as)
  case Nil
  then show ?case by (simp add: allKeys_def)
next
  case (Cons a as)
  from Cons have IH: "distinct (allKeys as)" by simp
  have d: "distinct (keysOf a)" using Cons.prems(1) by (simp add: distinct_keysOf)
  have "set (keysOf a) \<inter> set (keysOf b) = {}" if "b \<in> set as" for b
    using that Cons.prems(2) by (intro keysOf_disjoint) simp_all
  then have "set (keysOf a) \<inter> set (allKeys as) = {}"
    by (auto simp: allKeys_def)
  with IH d show ?case by (simp add: allKeys_def)
qed

lemma length_allKeys:
  "\<forall>a \<in> set as. length (functions_A a) = M \<Longrightarrow> length (allKeys as) = length as * M"
  by (induction as) (simp_all add: allKeys_def keysOf_def)

lemma mergeAnalyses_keys_addAnalysis:
  "map fst (functions_A (mergeAnalyses as)) = map fst (functions_A (foldl addAnalysis emptyMerged as))"
  by (simp only: mergeAnalyses_keys rewritten_def foldl_rewriteAnalysis_keys)

text \<open>
  Claim C6. A \<open>Map\<close> holds each local name once, and no name the analyzer stores is a
  name of another file followed by a colon. For K files of M functions each, whose
  local names are pairwise disjoint across files, \<open>mergeAnalyses\<close> yields exactly
  K * M entries under pairwise distinct keys, each key the local name joined by \<open>::\<close>
  to the file label.
\<close>

theorem merge_disjoint_names_count:
  assumes "\<forall>a \<in> set as. distinct (map fst (functions_A a)) \<and> length (functions_A a) = M"
      and "\<forall>i < length as. \<forall>j < length as. i \<noteq> j \<longrightarrow> localNames (as ! i) \<inter> localNames (as ! j) = {}"
      and "\<forall>i < length as. \<forall>j < length as. i \<noteq> j \<longrightarrow>
             (\<forall>n \<in> localNames (as ! i). \<forall>n' \<in> localNames (as ! j). \<not> extendsByColon n n')"
  shows "length (functions_A (mergeAnalyses as)) = length as * M
         \<and> distinct (map fst (functions_A (mergeAnalyses as)))
         \<and> map fst (functions_A (mergeAnalyses as)) = allKeys as"
proof -
  have s: "sorted_wrt (\<lambda>a b. localNames a \<inter> localNames b = {}
                \<and> (\<forall>n \<in> localNames a. \<forall>n' \<in> localNames b. \<not> extendsByColon n n')
                \<and> (\<forall>n \<in> localNames b. \<forall>n' \<in> localNames a. \<not> extendsByColon n n')) as"
    unfolding sorted_wrt_iff_nth_less
  proof (intro allI impI conjI)
    fix i j assume ij: "i < j" "j < length as"
    then have b: "i < length as" "j < length as" "i \<noteq> j" "j \<noteq> i" by simp_all
    from assms(2) b show "localNames (as ! i) \<inter> localNames (as ! j) = {}" by blast
    from assms(3) b(1,2,3)
    show "\<forall>n \<in> localNames (as ! i). \<forall>n' \<in> localNames (as ! j). \<not> extendsByColon n n'" by blast
    from assms(3) b(1,2,4)
    show "\<forall>n \<in> localNames (as ! j). \<forall>n' \<in> localNames (as ! i). \<not> extendsByColon n n'" by blast
  qed
  have d: "distinct (allKeys as)"
    using assms(1) s by (intro distinct_allKeys) simp_all
  then have "distinct (map fst (functions_A emptyMerged) @ allKeys as)"
    by (simp add: emptyMerged_def)
  from keys_foldl_addAnalysis_distinct[OF this]
  have k: "map fst (functions_A (mergeAnalyses as)) = allKeys as"
    by (simp add: mergeAnalyses_keys_addAnalysis emptyMerged_def)
  have "length (functions_A (mergeAnalyses as)) = length (map fst (functions_A (mergeAnalyses as)))"
    by simp
  also have "\<dots> = length as * M" unfolding k using assms(1) by (intro length_allKeys) simp
  finally show ?thesis using d k by simp
qed

text \<open>
  The example workspace: two files with two functions each, four keys in the order of
  the files.
\<close>

theorem merge_disjoint_names_count_witness:
  "localNames fileA \<inter> localNames fileB = {}
   \<and> length (functions_A (mergeAnalyses [fileA, fileB])) = 2 * 2
   \<and> distinct (map fst (functions_A (mergeAnalyses [fileA, fileB])))
   \<and> map fst (functions_A (mergeAnalyses [fileA, fileB]))
       = [''main::a.js'', ''helper::a.js'', ''run::b.js'', ''setup::b.js'']"
proof -
  have h1: "\<forall>a \<in> set [fileA, fileB]. distinct (map fst (functions_A a)) \<and> length (functions_A a) = 2"
    by (simp add: fileA_def fileB_def)
  have h2: "\<forall>i < length [fileA, fileB]. \<forall>j < length [fileA, fileB]. i \<noteq> j \<longrightarrow>
         localNames ([fileA, fileB] ! i) \<inter> localNames ([fileA, fileB] ! j) = {}"
    by (auto simp: less_Suc_eq fileA_def fileB_def localNames_def)
  have h3: "\<forall>i < length [fileA, fileB]. \<forall>j < length [fileA, fileB]. i \<noteq> j \<longrightarrow>
         (\<forall>n \<in> localNames ([fileA, fileB] ! i). \<forall>n' \<in> localNames ([fileA, fileB] ! j).
            \<not> extendsByColon n n')"
    by (auto simp: less_Suc_eq fileA_def fileB_def localNames_def extendsByColon_def)
  have k: "allKeys [fileA, fileB] = [''main::a.js'', ''helper::a.js'', ''run::b.js'', ''setup::b.js'']"
    by code_simp
  have h4: "localNames fileA \<inter> localNames fileB = {}"
    by (simp add: fileA_def fileB_def localNames_def)
  from merge_disjoint_names_count[OF h1 h2 h3] h4 k show ?thesis by simp
qed

section \<open>Call references after the merge\<close>

lemma resolveCall_bindsTo: "bindsTo (map fst mf) L C (resolveCall mf L C)"
proof (cases "uniqueKey C L \<in> set (map fst mf)")
  case True
  then show ?thesis by (simp add: bindsTo_def resolveCall_def map_has_def)
next
  case False
  show ?thesis
  proof (cases "find (\<lambda>key. prefix (C @ ''::'') key) (map fst mf)")
    case None
    then have "\<not> (\<exists>key \<in> set (map fst mf). prefix (C @ ''::'') key)"
      by (simp add: find_None_iff)
    with None False show ?thesis by (simp add: bindsTo_def resolveCall_def map_has_def)
  next
    case (Some key)
    then obtain i where i: "i < length (map fst mf)" "prefix (C @ ''::'') (map fst mf ! i)"
      "key = map fst mf ! i" "\<forall>j < i. \<not> prefix (C @ ''::'') (map fst mf ! j)"
      unfolding find_Some_iff by blast
    then have "\<exists>key \<in> set (map fst mf). prefix (C @ ''::'') key"
      using nth_mem by blast
    moreover have "resolveCall mf L C = key"
      using Some False by (simp add: resolveCall_def map_has_def)
    ultimately show ?thesis using False i unfolding bindsTo_def by auto
  qed
qed

lemma resolveCall_keys:
  assumes "map fst m = map fst m'"
  shows "resolveCall m L C = resolveCall m' L C"
  by (simp only: resolveCall_def map_has_def assms)

lemma map_of_map_set: "map_of (map_set m k v) k' = (if k' = k then Some v else map_of m k')"
  by (induction m) auto

lemma find_snoc:
  "find P (xs @ [x]) = (case find P xs of None \<Rightarrow> (if P x then Some x else None) | Some y \<Rightarrow> Some y)"
  by (induction xs) simp_all

lemma foldl_nested:
  "foldl (\<lambda>m a. foldl (g a) m (h a)) m as
   = foldl (\<lambda>m p. g (fst p) m (snd p)) m (concat (map (\<lambda>a. map (Pair a) (h a)) as))"
proof (induction as arbitrary: m)
  case Nil
  then show ?case by simp
next
  case (Cons a as)
  have "foldl (g a) m es = foldl (\<lambda>m p. g (fst p) m (snd p)) m (map (Pair a) es)" for es
    by (induction es arbitrary: m) simp_all
  with Cons.IH show ?case by simp
qed

lemma functions_foldl_addAnalysis:
  "functions_A (foldl addAnalysis m as)
   = foldl (\<lambda>mf a. foldl (addFunction a) mf (functions_A a)) (functions_A m) as"
  by (induction as arbitrary: m) (simp_all add: addAnalysis_def)

lemma loop1_pairs:
  "functions_A (foldl addAnalysis emptyMerged as)
   = foldl (\<lambda>m p. addFunction (fst p) m (snd p)) [] (pairsOf as)"
  unfolding functions_foldl_addAnalysis pairsOf_def
  by (simp add: foldl_nested[of addFunction functions_A] emptyMerged_def)

lemma loop2_pairs:
  "foldl rewriteAnalysis m as
   = foldl (\<lambda>m p. rewriteCalls (fileLabel (fileName_A (fst p))) m (snd p)) m (pairsOf as)"
proof -
  have r: "rewriteAnalysis = (\<lambda>m a. foldl (rewriteCalls (fileLabel (fileName_A a))) m (functions_A a))"
    by (intro ext) (simp add: rewriteAnalysis_def)
  show ?thesis
    unfolding pairsOf_def r
    by (rule foldl_nested[of "\<lambda>a. rewriteCalls (fileLabel (fileName_A a))" functions_A])
qed

lemma loop1_lookup:
  "map_of (foldl (\<lambda>m p. addFunction (fst p) m (snd p)) m0 P) k
   = (case find (\<lambda>p. keyP p = k) (rev P) of None \<Rightarrow> map_of m0 k | Some p \<Rightarrow> Some (copyP p))"
proof (induction P arbitrary: m0)
  case Nil
  then show ?case by simp
next
  case (Cons p P)
  have s: "map_of (addFunction (fst p) m0 (snd p)) k = (if keyP p = k then Some (copyP p) else map_of m0 k)"
    by (auto simp: addFunction_def map_of_map_set keyP_def copyP_def)
  show ?case
    by (simp add: Cons.IH s find_snoc split: option.splits)
qed

lemma rewriteCalls_lookup:
  "map_of (rewriteCalls L m e) k
   = (if uniqueKey (fst e) L = k
      then map_option (\<lambda>mf. mf\<lparr>calls := map (resolveCall m L) (calls (snd e)), calledBy := []\<rparr>)
             (map_of m k)
      else map_of m k)"
  by (cases "map_of m (uniqueKey (fst e) L)")
     (auto simp: rewriteCalls_def map_get_def map_of_map_set)

lemma foldl_rewriteCalls_pairs_keys:
  "map fst (foldl (\<lambda>m p. rewriteCalls (fileLabel (fileName_A (fst p))) m (snd p)) m0 P) = map fst m0"
  by (induction P rule: rev_induct) (simp_all add: rewriteCalls_keys)

lemma loop2_lookup:
  "map_of (foldl (\<lambda>m p. rewriteCalls (fileLabel (fileName_A (fst p))) m (snd p)) m0 P) k
   = (case find (\<lambda>p. keyP p = k) (rev P) of
        None \<Rightarrow> map_of m0 k
      | Some p \<Rightarrow> map_option
          (\<lambda>mf. mf\<lparr>calls := map (resolveCall m0 (fileLabel (fileName_A (fst p)))) (calls (snd (snd p))),
                   calledBy := []\<rparr>)
          (map_of m0 k))"
proof (induction P rule: rev_induct)
  case Nil
  then show ?case by simp
next
  case (snoc p P)
  let ?step = "\<lambda>m p. rewriteCalls (fileLabel (fileName_A (fst p))) m (snd p)"
  let ?m = "foldl ?step m0 P"
  let ?L = "fileLabel (fileName_A (fst p))"
  let ?u = "\<lambda>mf. mf\<lparr>calls := map (resolveCall m0 ?L) (calls (snd (snd p))), calledBy := []\<rparr>"
  have rc: "resolveCall ?m ?L = resolveCall m0 ?L"
    by (intro ext resolveCall_keys foldl_rewriteCalls_pairs_keys)
  have kp: "uniqueKey (fst (snd p)) ?L = keyP p" by (simp add: keyP_def)
  have st: "map_of (foldl ?step m0 (P @ [p])) k
            = (if keyP p = k then map_option ?u (map_of ?m k) else map_of ?m k)"
    by (simp only: foldl_append foldl_Cons foldl_Nil rewriteCalls_lookup kp rc)
  show ?case
  proof (cases "keyP p = k")
    case False
    with st snoc.IH show ?thesis by simp
  next
    case True
    have "map_option ?u (map_of ?m k) = map_option ?u (map_of m0 k)"
      unfolding snoc.IH by (cases "map_of m0 k") (auto split: option.splits)
    with st True show ?thesis by simp
  qed
qed

lemma find_SomeD: "find P xs = Some x \<Longrightarrow> x \<in> set xs \<and> P x"
  by (induction xs) (auto split: if_splits)

lemma pairsOf_mem:
  "p \<in> set (pairsOf as) \<Longrightarrow> fst p \<in> set as \<and> snd p \<in> set (functions_A (fst p))"
  by (auto simp: pairsOf_def)

lemma rewritten_lookup:
  assumes "map_of (rewritten as) k = Some g"
  shows "\<exists>p \<in> set (pairsOf as). keyP p = k \<and>
           g = (copyP p)\<lparr>calls := map (resolveCall (functions_A (foldl addAnalysis emptyMerged as))
                                        (fileLabel (fileName_A (fst p))))
                                   (calls (snd (snd p))),
                          calledBy := []\<rparr>"
proof -
  let ?M1 = "functions_A (foldl addAnalysis emptyMerged as)"
  let ?P = "pairsOf as"
  have r: "rewritten as = foldl (\<lambda>m p. rewriteCalls (fileLabel (fileName_A (fst p))) m (snd p)) ?M1 ?P"
    unfolding rewritten_def by (rule loop2_pairs)
  have l1: "map_of ?M1 k = (case find (\<lambda>p. keyP p = k) (rev ?P) of None \<Rightarrow> None | Some p \<Rightarrow> Some (copyP p))"
    unfolding loop1_pairs loop1_lookup by (simp split: option.splits)
  show ?thesis
  proof (cases "find (\<lambda>p. keyP p = k) (rev ?P)")
    case None
    with l1 assms show ?thesis unfolding r loop2_lookup by simp
  next
    case (Some p)
    from find_SomeD[OF this] have "p \<in> set ?P" "keyP p = k" by simp_all
    moreover from Some l1 assms
    have "g = (copyP p)\<lparr>calls := map (resolveCall ?M1 (fileLabel (fileName_A (fst p))))
                                   (calls (snd (snd p))),
                          calledBy := []\<rparr>"
      unfolding r loop2_lookup by simp
    ultimately show ?thesis by blast
  qed
qed

text \<open>
  Claim C5. Every record of the merged graph is the copy of a function \<open>e\<close> of some
  input file \<open>a\<close>, stored under the key made of its local name and the label \<open>L\<close> of
  that file, and its calls are the raw callee names of \<open>e\<close>, each rewritten by the
  binding rule over the keys of the merged graph: the key \<open>C::L\<close> when the graph has
  it, otherwise the first key in iteration order that starts with \<open>C::\<close>, otherwise
  the raw name \<open>C\<close>. (When several functions collide on one key, the record is the
  copy of the last one, and the calls are that one's.)
\<close>

theorem merged_calls_bound:
  assumes "(k, f) \<in> set (functions_A (mergeAnalyses as))"
  shows "\<exists>a \<in> set as. \<exists>e \<in> set (functions_A a).
           k = uniqueKey (fst e) (fileLabel (fileName_A a))
           \<and> f\<lparr>calls := calls (snd e), calledBy := calledBy (snd e),
                significance := significance (snd e)\<rparr>
               = (snd e)\<lparr>name := k, displayName := fst e, fileName := Some (fileName_A a)\<rparr>
           \<and> list_all2 (bindsTo (map fst (functions_A (mergeAnalyses as))) (fileLabel (fileName_A a)))
                 (calls (snd e)) (calls f)"
proof -
  let ?M1 = "functions_A (foldl addAnalysis emptyMerged as)"
  let ?M2 = "rewritten as"
  let ?r = "loopK fst ?M2"
  have d: "distinct (map fst ?M2)"
    using rewritten_wellKeyed[of as] by (simp add: wellKeyed_def)
  have er: "map erase ?r = map erase ?M2" by (rule loopK_erase[OF stable_fst d])
  then have l: "length ?r = length ?M2" by (rule map_eq_imp_length_eq)
  from assms obtain e' where e': "e' \<in> set ?r" "k = fst e'"
    and f: "f = (snd e')\<lparr>significance := Some (scoreOf (map snd ?r)
                  (exports (foldl addAnalysis emptyMerged as)) (snd e'))\<rparr>"
    unfolding mergeAnalyses_functions by (auto simp: withScore_def)
  from e'(1) l obtain i where i: "i < length ?M2" "e' = ?r ! i"
    by (auto simp: in_set_conv_nth)
  let ?e2 = "?M2 ! i"
  have ee: "erase e' = erase ?e2" unfolding i(2) by (rule erase_nth[OF er i(1)])
  then have k2: "fst ?e2 = k" and s2: "(snd e')\<lparr>calledBy := []\<rparr> = (snd ?e2)\<lparr>calledBy := []\<rparr>"
    using e'(2) by (simp_all add: erase_def)
  from i(1) have "?e2 \<in> set ?M2" by simp
  with k2 have "(k, snd ?e2) \<in> set ?M2" by (metis prod.collapse)
  with d have "map_of ?M2 k = Some (snd ?e2)" by simp
  from rewritten_lookup[OF this] obtain p where p: "p \<in> set (pairsOf as)" "keyP p = k"
    and g: "snd ?e2 = (copyP p)\<lparr>calls := map (resolveCall ?M1 (fileLabel (fileName_A (fst p))))
                                   (calls (snd (snd p))),
                          calledBy := []\<rparr>"
    by blast
  let ?a = "fst p" and ?e = "snd p"
  let ?L = "fileLabel (fileName_A ?a)"
  from pairsOf_mem[OF p(1)] have m: "?a \<in> set as" "?e \<in> set (functions_A ?a)" by simp_all
  have kk: "k = uniqueKey (fst ?e) ?L" using p(2) by (simp add: keyP_def)
  have cf: "calls f = map (resolveCall ?M1 ?L) (calls (snd ?e))"
  proof -
    have "calls f = calls ((snd e')\<lparr>calledBy := []\<rparr>)" unfolding f by simp
    also have "\<dots> = calls (snd ?e2)" unfolding s2 by simp
    finally show ?thesis unfolding g by simp
  qed
  have keys: "map fst (functions_A (mergeAnalyses as)) = map fst ?M1"
    by (rule mergeAnalyses_keys_addAnalysis)
  have b: "list_all2 (bindsTo (map fst (functions_A (mergeAnalyses as))) ?L) (calls (snd ?e)) (calls f)"
    unfolding cf keys by (simp add: list_all2_map2 resolveCall_bindsTo list_all2_refl)
  have "f\<lparr>calls := calls (snd ?e), calledBy := calledBy (snd ?e), significance := significance (snd ?e)\<rparr>
        = ((snd e')\<lparr>calledBy := []\<rparr>)\<lparr>calls := calls (snd ?e), calledBy := calledBy (snd ?e),
                                        significance := significance (snd ?e)\<rparr>"
    unfolding f by simp
  also have "\<dots> = (snd ?e)\<lparr>name := k, displayName := fst ?e, fileName := Some (fileName_A ?a)\<rparr>"
    unfolding s2 g copyP_def p(2) by simp
  finally have c: "f\<lparr>calls := calls (snd ?e), calledBy := calledBy (snd ?e),
                      significance := significance (snd ?e)\<rparr>
        = (snd ?e)\<lparr>name := k, displayName := fst ?e, fileName := Some (fileName_A ?a)\<rparr>" .
  from m kk c b show ?thesis by blast
qed

text \<open>
  In the example workspace \<open>run\<close> of \<open>b.js\<close> calls \<open>helper\<close>, declared only in \<open>a.js\<close>,
  and \<open>setup\<close> of its own file; \<open>main\<close> of \<open>a.js\<close> calls its own \<open>helper\<close> and the
  unknown \<open>log\<close>.
\<close>

theorem merged_calls_bound_witness:
  "(''run::b.js'', snd (functions_A (mergeAnalyses [fileA, fileB]) ! 2))
     \<in> set (functions_A (mergeAnalyses [fileA, fileB]))
   \<and> calls (snd (functions_A (mergeAnalyses [fileA, fileB]) ! 2))
       = [''helper::a.js'', ''setup::b.js'']
   \<and> calls (snd (functions_A (mergeAnalyses [fileA, fileB]) ! 0))
       = [''helper::a.js'', ''log'']"
proof -
  have m: "(''run::b.js'', snd (functions_A (mergeAnalyses [fileA, fileB]) ! 2))
     \<in> set (functions_A (mergeAnalyses [fileA, fileB]))"
    by code_simp
  have c: "calls (snd (functions_A (mergeAnalyses [fileA, fileB]) ! 2))
       = [''helper::a.js'', ''setup::b.js'']"
    by code_simp
  have c0: "calls (snd (functions_A (mergeAnalyses [fileA, fileB]) ! 0))
       = [''helper::a.js'', ''log'']"
    by code_simp
  from merged_calls_bound[OF m] m c c0 show ?thesis by blast
qed

section \<open>Properties of the viewport filter\<close>

lemma sorted_thresholds:
  "sort (map fst SIGNIFICANCE_LEVELS) = [0.5, 0.8, 1.0, 1.3, 1.8, 2.5]"
  by (simp add: SIGNIFICANCE_LEVELS_def)

lemma getMinSignificance_cutoffAt: "getMinSignificance z = Some (cutoffAt z)"
  unfolding getMinSignificance_def sorted_thresholds Let_def cutoffAt_def
  by (simp add: SIGNIFICANCE_LEVELS_def)

lemma shouldShowFunction_eq:
  "shouldShowFunction func z ws ex fts
   = (\<not> (ws \<and> ex \<noteq> [] \<and> \<not> setHas fts (fileName func))
      \<and> cutoffAt z \<le> valueOr100 (significance func))"
  by (simp add: shouldShowFunction_def getMinSignificance_cutoffAt valueOr100_def)

lemma cutoffAt_greatest:
  assumes "0.5 \<le> z"
  shows "\<exists>t. (t, cutoffAt z) \<in> set SIGNIFICANCE_LEVELS \<and> t \<le> z
             \<and> (\<forall>p \<in> set SIGNIFICANCE_LEVELS. fst p \<le> z \<longrightarrow> fst p \<le> t)"
proof -
  consider "2.5 \<le> z" | "1.8 \<le> z" "z < 2.5" | "1.3 \<le> z" "z < 1.8" | "1.0 \<le> z" "z < 1.3"
    | "0.8 \<le> z" "z < 1.0" | "z < 0.8"
    by linarith
  then show ?thesis
  proof cases
    case 1
    then show ?thesis
      by (intro exI[of _ "2.5"]) (simp add: SIGNIFICANCE_LEVELS_def cutoffAt_def)
  next
    case 2
    then show ?thesis
      by (intro exI[of _ "1.8"]) (simp add: SIGNIFICANCE_LEVELS_def cutoffAt_def)
  next
    case 3
    then show ?thesis
      by (intro exI[of _ "1.3"]) (simp add: SIGNIFICANCE_LEVELS_def cutoffAt_def)
  next
    case 4
    then show ?thesis
      by (intro exI[of _ "1.0"]) (simp add: SIGNIFICANCE_LEVELS_def cutoffAt_def)
  next
    case 5
    then show ?thesis
      by (intro exI[of _ "0.8"]) (simp add: SIGNIFICANCE_LEVELS_def cutoffAt_def)
  next
    case 6
    with assms show ?thesis
      by (intro exI[of _ "0.5"]) (simp add: SIGNIFICANCE_LEVELS_def cutoffAt_def)
  qed
qed

text \<open>
  Claim C7, with the file filter the code applies first. At a zoom scale at or above the lowest
  threshold the cutoff is the value the table pairs with the greatest threshold not
  exceeding the scale. Unless the workspace file filter excludes the node (workspace
  mode, a non-empty set of expanded files, the node's file not among the files to
  show), the node is shown exactly when its significance, 100 when it has none, is at
  least the cutoff; a node without a significance value is then always shown. A node
  the file filter excludes is never shown.
\<close>

theorem cutoff_and_eligibility:
  assumes "0.5 \<le> z"
  shows "\<exists>t c. (t, c) \<in> set SIGNIFICANCE_LEVELS \<and> t \<le> z
           \<and> (\<forall>p \<in> set SIGNIFICANCE_LEVELS. fst p \<le> z \<longrightarrow> fst p \<le> t)
           \<and> getMinSignificance z = Some c
           \<and> (if ws \<and> ex \<noteq> [] \<and> \<not> setHas fts (fileName func)
               then \<not> shouldShowFunction func z ws ex fts
               else (shouldShowFunction func z ws ex fts \<longleftrightarrow> c \<le> valueOr100 (significance func))
                    \<and> (significance func = None \<longrightarrow> shouldShowFunction func z ws ex fts))"
proof -
  from cutoffAt_greatest[OF assms] obtain t where
    t: "(t, cutoffAt z) \<in> set SIGNIFICANCE_LEVELS" "t \<le> z"
       "\<forall>p \<in> set SIGNIFICANCE_LEVELS. fst p \<le> z \<longrightarrow> fst p \<le> t"
    by blast
  have "cutoffAt z \<le> 100" by (simp add: cutoffAt_def)
  then have n: "significance func = None \<Longrightarrow> cutoffAt z \<le> valueOr100 (significance func)"
    by (simp add: valueOr100_def)
  show ?thesis
    using t n by (intro exI[of _ t] exI[of _ "cutoffAt z"])
      (simp add: getMinSignificance_cutoffAt shouldShowFunction_eq)
qed

text \<open>At scale 1.4 the cutoff is 20; a node scored 58 belongs to no file and is shown.\<close>

theorem cutoff_and_eligibility_witness:
  "getMinSignificance 1.4 = Some 20
   \<and> shouldShowFunction ((funcNode ''f'' [] [''g''])\<lparr>significance := Some 58\<rparr>) 1.4 False [] []"
proof -
  have z: "(0.5::real) \<le> 1.4" by simp
  have a: "getMinSignificance 1.4 = Some 20"
    by (simp add: getMinSignificance_cutoffAt cutoffAt_def)
  have b: "shouldShowFunction ((funcNode ''f'' [] [''g''])\<lparr>significance := Some 58\<rparr>) 1.4 False [] []"
    by (simp add: shouldShowFunction_eq cutoffAt_def valueOr100_def)
  from cutoff_and_eligibility[OF z, of False "[]" "[]" "(funcNode ''f'' [] [''g''])\<lparr>significance := Some 58\<rparr>"]
    a b show ?thesis by simp
qed

text \<open>
  In workspace mode with \<open>a.ts\<close> expanded, the node of \<open>b.ts\<close> without a significance
  value is not shown at scale 1, although the cutoff there is 30.
\<close>

theorem cutoff_and_eligibility_counterexample:
  "significance unscoredNode = None
   \<and> getMinSignificance 1 = Some 30
   \<and> \<not> shouldShowFunction unscoredNode 1 True [''a.ts''] [''a.ts'']"
  by (simp add: unscoredNode_def funcNode_def getMinSignificance_cutoffAt cutoffAt_def
      shouldShowFunction_def setHas_def)

lemma renderDetailedView_shown:
  assumes "length functions' \<le> length positions"
  shows "renderDetailedView functions' positions scale ws ex cf
         = Some (filter (\<lambda>i. pos_x (positions ! i) > -1000
                    \<and> shouldShowFunction (functions' ! i) scale ws ex (if ex \<noteq> [] then ex else cf)
                    \<and> setHas (if ex \<noteq> [] then ex else cf) (fileName (functions' ! i)))
                  [0..<length functions'])"
  using assms by (simp add: renderDetailedView_def Let_def conj_commute conj_left_commute)

text \<open>
  Claim C4, as the code has it. With a non-empty set of expanded files the detailed
  view draws a node exactly when its file is among the expanded files, its position is
  not the hidden one (\<open>x > -1000\<close>) and its significance, 100 when it has none, is at
  least the cutoff of the zoom scale: the focus override selects the files, the
  significance filter still applies inside them.
\<close>

theorem focus_override_display:
  assumes "expandedFiles \<noteq> []" and "length functions' \<le> length positions"
      and "i < length functions'"
  shows "\<exists>shown. renderDetailedView functions' positions scale ws expandedFiles clusterFiles
                   = Some shown
           \<and> (i \<in> set shown \<longleftrightarrow>
                setHas expandedFiles (fileName (functions' ! i))
                \<and> pos_x (positions ! i) > -1000
                \<and> cutoffAt scale \<le> valueOr100 (significance (functions' ! i)))"
  unfolding renderDetailedView_shown[OF assms(2)]
  using assms(1,3) by (auto simp: shouldShowFunction_eq)

text \<open>
  \<open>helperNode\<close> of the expanded file \<open>a.ts\<close>, scored 58: drawn at scale 1 (cutoff 30).
\<close>

theorem focus_override_display_witness:
  "renderDetailedView [helperNode] [\<lparr>pos_x = 0, pos_y = 0\<rparr>] 1 True [''a.ts''] [''a.ts'']
     = Some [0]"
proof -
  have r: "renderDetailedView [helperNode] [\<lparr>pos_x = 0, pos_y = 0\<rparr>] 1 True [''a.ts''] [''a.ts'']
     = Some [0]"
    by (simp add: renderDetailedView_def shouldShowFunction_eq cutoffAt_def valueOr100_def
        setHas_def helperNode_def funcNode_def)
  have a: "[''a.ts''] \<noteq> []" by simp
  have b: "length [helperNode] \<le> length [\<lparr>pos_x = 0, pos_y = 0\<rparr>]" by simp
  have c: "0 < length [helperNode]" by simp
  from focus_override_display[OF a b c, of 1 True "[''a.ts'']"] r show ?thesis by simp
qed

text \<open>
  The same node at scale 0.7, where the cutoff is 70: its file is expanded, and it is
  not drawn.
\<close>

theorem focus_override_display_counterexample:
  "setHas [''a.ts''] (fileName helperNode)
   \<and> renderDetailedView [helperNode] [\<lparr>pos_x = 0, pos_y = 0\<rparr>] 0.7 True [''a.ts''] [''a.ts'']
       = Some []"
  by (simp add: renderDetailedView_def shouldShowFunction_eq cutoffAt_def valueOr100_def
      setHas_def helperNode_def funcNode_def)

section \<open>Hierarchical layout of the example chain\<close>

lemma assignRoots_chainABCD:
  "assignRoots chainABCD
   = Some \<lparr>visited = [''A'', ''B'', ''C''],
            levels = [(0, [funcNode ''A'' [''B''] []]),
                      (1, [funcNode ''B'' [''C''] [''A'']]),
                      (2, [funcNode ''C'' [] [''B'']])]\<rparr>"
  by code_simp

lemma layout_chainABCD:
  "calculateHierarchicalLayout chainABCD width height
   = Some [\<lparr>pos_x = width / 2, pos_y = 120\<rparr>,
           \<lparr>pos_x = width / 2, pos_y = 120 + (1 / 2) * (height - 2 * 120)\<rparr>,
           \<lparr>pos_x = width / 2, pos_y = 120 + (2 / 2) * (height - 2 * 120)\<rparr>,
           hiddenPosition]"
proof -
  have m: "Max (set (map fst [(0::nat, [funcNode ''A'' [''B''] []]),
                      (1, [funcNode ''B'' [''C''] [''A'']]),
                      (2, [funcNode ''C'' [] [''B'']])])) = 2"
    by simp
  show ?thesis
    unfolding calculateHierarchicalLayout_def assignRoots_chainABCD
    by (simp add: m Let_def placeLevel_def placeNode_def chainABCD_def funcNode_def)
qed

text \<open>
  Claim C8, for every canvas whose height is not 240 (twice the vertical padding) and
  whose width is not negative. On the functions \<open>A\<close>, \<open>B\<close>, \<open>C\<close>, \<open>D\<close>, in this order, the
  layout puts \<open>A\<close>, \<open>B\<close> and \<open>C\<close> alone on the levels 0, 1 and 2, at the heights 120,
  \<open>height / 2\<close> and \<open>height - 120\<close>, which are pairwise different; \<open>D\<close> is on no level
  and receives the hidden position, whose \<open>x\<close> fails the renderer's test
  \<open>x > -1000\<close>. Each of the four is either leveled or hidden, never both, never
  neither.
\<close>

theorem chain_layout_levels:
  assumes "height \<noteq> 240" and "0 \<le> width"
  shows "\<exists>st pA pB pC pD.
           assignRoots chainABCD = Some st
           \<and> levels st = [(0, [chainABCD ! 0]), (1, [chainABCD ! 1]), (2, [chainABCD ! 2])]
           \<and> visited st = [''A'', ''B'', ''C'']
           \<and> calculateHierarchicalLayout chainABCD width height = Some [pA, pB, pC, pD]
           \<and> pA = \<lparr>pos_x = width / 2, pos_y = 120\<rparr>
           \<and> pB = \<lparr>pos_x = width / 2, pos_y = height / 2\<rparr>
           \<and> pC = \<lparr>pos_x = width / 2, pos_y = height - 120\<rparr>
           \<and> pos_y pA \<noteq> pos_y pB \<and> pos_y pB \<noteq> pos_y pC \<and> pos_y pA \<noteq> pos_y pC
           \<and> pD = hiddenPosition \<and> \<not> pos_x pD > -1000
           \<and> (\<forall>i < 4. (name (chainABCD ! i) \<in> set (visited st))
                        \<noteq> ([pA, pB, pC, pD] ! i = hiddenPosition))"
proof -
  let ?st = "\<lparr>visited = [''A'', ''B'', ''C''],
            levels = [(0, [funcNode ''A'' [''B''] []]),
                      (1, [funcNode ''B'' [''C''] [''A'']]),
                      (2, [funcNode ''C'' [] [''B'']])]\<rparr>"
  let ?pA = "\<lparr>pos_x = width / 2, pos_y = 120\<rparr>"
  let ?pB = "\<lparr>pos_x = width / 2, pos_y = height / 2\<rparr>"
  let ?pC = "\<lparr>pos_x = width / 2, pos_y = height - 120\<rparr>"
  have l: "calculateHierarchicalLayout chainABCD width height = Some [?pA, ?pB, ?pC, hiddenPosition]"
    unfolding layout_chainABCD by (simp add: field_simps)
  have lv: "levels ?st = [(0, [chainABCD ! 0]), (1, [chainABCD ! 1]), (2, [chainABCD ! 2])]"
    by (simp add: chainABCD_def)
  have y: "pos_y ?pA \<noteq> pos_y ?pB" "pos_y ?pB \<noteq> pos_y ?pC" "pos_y ?pA \<noteq> pos_y ?pC"
    using assms(1) by simp_all
  have h: "?pA \<noteq> hiddenPosition" "?pB \<noteq> hiddenPosition" "?pC \<noteq> hiddenPosition"
    using assms(2) by (simp_all add: hiddenPosition_def)
  have x: "\<not> pos_x hiddenPosition > -1000" by (simp add: hiddenPosition_def)
  have e: "\<forall>i < 4. (name (chainABCD ! i) \<in> set (visited ?st))
                        \<noteq> ([?pA, ?pB, ?pC, hiddenPosition] ! i = hiddenPosition)"
  proof (intro allI impI)
    fix i :: nat assume "i < 4"
    then consider "i = 0" | "i = 1" | "i = 2" | "i = 3" by linarith
    then show "(name (chainABCD ! i) \<in> set (visited ?st))
                        \<noteq> ([?pA, ?pB, ?pC, hiddenPosition] ! i = hiddenPosition)"
      using h by cases (simp_all add: chainABCD_def funcNode_def)
  qed
  show ?thesis
    apply (rule exI[of _ ?st])
    apply (rule exI[of _ ?pA])
    apply (rule exI[of _ ?pB])
    apply (rule exI[of _ ?pC])
    apply (rule exI[of _ hiddenPosition])
    apply (intro conjI)
    apply (rule assignRoots_chainABCD)
    apply (rule lv)
    apply simp
    apply (rule l)
    apply (rule refl)+
    apply (rule y(1))
    apply (rule y(2))
    apply (rule y(3))
    apply (rule refl)
    apply (rule x)
    apply (rule e)
    done
qed

text \<open>On a canvas 800 by 600 the three bands are at 120, 300 and 480.\<close>

theorem chain_layout_levels_witness:
  "calculateHierarchicalLayout chainABCD 800 600
   = Some [\<lparr>pos_x = 400, pos_y = 120\<rparr>, \<lparr>pos_x = 400, pos_y = 300\<rparr>,
           \<lparr>pos_x = 400, pos_y = 480\<rparr>, hiddenPosition]"
proof -
  have a: "(600::real) \<noteq> 240" by simp
  have b: "(0::real) \<le> 800" by simp
  from chain_layout_levels[OF a b] show ?thesis by auto
qed

text \<open>
  On a canvas of height 240 the three levels share one height: the bands are not
  distinct.
\<close>

theorem chain_layout_levels_counterexample:
  "calculateHierarchicalLayout chainABCD 800 240
   = Some [\<lparr>pos_x = 400, pos_y = 120\<rparr>, \<lparr>pos_x = 400, pos_y = 120\<rparr>,
           \<lparr>pos_x = 400, pos_y = 120\<rparr>, hiddenPosition]"
  unfolding layout_chainABCD by simp

section \<open>Validated positions\<close>

lemma isNaN_missing: "isNaN v = missing v"
  by (cases v) (simp_all add: missing_def)

lemma length_validatePositions:
  "length (fst (validatePositions w h random n ps)) = length ps"
  by (induction ps arbitrary: n) (simp_all add: Let_def)

lemma validatePositions_nth:
  assumes "\<forall>k. 0 \<le> random k \<and> random k < 1" and "i < length ps"
  shows "(if broken (ps ! i)
          then near (w / 2) (js_x (fst (validatePositions w h random n ps) ! i))
               \<and> near (h / 2) (js_y (fst (validatePositions w h random n ps) ! i))
          else fst (validatePositions w h random n ps) ! i = ps ! i)"
  using assms(2)
proof (induction ps arbitrary: n i)
  case Nil
  then show ?case by simp
next
  case (Cons pos rest)
  have b: "(isNaN (js_x pos) \<or> isNaN (js_y pos) \<or> js_x pos = Undefined \<or> js_y pos = Undefined)
           = broken pos"
    by (auto simp: isNaN_missing broken_def missing_def)
  have r: "\<bar>(random k - 0.5) * 100\<bar> \<le> 50" for k
  proof -
    from assms(1) have "0 \<le> random k" "random k < 1" by simp_all
    then show ?thesis by (simp add: abs_le_iff)
  qed
  show ?case
  proof (cases i)
    case 0
    show ?thesis
    proof (cases "broken pos")
      case True
      then show ?thesis
        using r[of n] r[of "n + 1"] 0 by (simp add: b Let_def near_def)
    next
      case False
      then show ?thesis using 0 by (simp add: b Let_def)
    qed
  next
    case (Suc j)
    with Cons.prems have j: "j < length rest" by simp
    from Cons.IH[OF j, of "Suc (Suc n)"] Cons.IH[OF j, of n] Suc show ?thesis
      by (simp add: b Let_def)
  qed
qed

lemma near_not_missing: "near c v \<Longrightarrow> \<not> missing v"
  by (cases v) (simp_all add: near_def missing_def)

text \<open>
  Claim C9. Whatever positions a layout (or the reuse of earlier positions) delivers,
  after the validation loop no position handed to the rendering has a \<open>NaN\<close> or
  \<open>undefined\<close> coordinate: a position that had one has both coordinates replaced by
  numbers within 50 of the centre of the canvas, each from a draw of \<open>Math.random\<close> in
  \<open>[0, 1)\<close>, and every other position is unchanged.
\<close>

theorem validated_positions_defined:
  assumes "\<forall>k. 0 \<le> random k \<and> random k < 1" and "i < length ps"
  shows "length (fst (validatePositions w h random n ps)) = length ps
         \<and> \<not> broken (fst (validatePositions w h random n ps) ! i)
         \<and> (if broken (ps ! i)
             then near (w / 2) (js_x (fst (validatePositions w h random n ps) ! i))
                  \<and> near (h / 2) (js_y (fst (validatePositions w h random n ps) ! i))
             else fst (validatePositions w h random n ps) ! i = ps ! i)"
proof -
  note v = validatePositions_nth[OF assms, of w h n]
  have "\<not> broken (fst (validatePositions w h random n ps) ! i)"
  proof (cases "broken (ps ! i)")
    case True
    with v show ?thesis unfolding broken_def[of "fst (validatePositions w h random n ps) ! i"]
      using near_not_missing by auto
  next
    case False
    with v show ?thesis by simp
  qed
  with v show ?thesis by (simp add: length_validatePositions)
qed

text \<open>
  A layout result with a \<open>NaN\<close> and an \<open>undefined\<close> coordinate on a canvas 800 by 600,
  with draws 0.25 and 0.75: the broken positions move to \<open>(375, 325)\<close>, the sound one
  stays.
\<close>

theorem validated_positions_defined_witness:
  "fst (validatePositions 800 600 (\<lambda>k. if even k then 0.25 else 0.75) 0
         [\<lparr>js_x = NaN, js_y = Num 10\<rparr>, \<lparr>js_x = Num 5, js_y = Num 7\<rparr>,
          \<lparr>js_x = Num 3, js_y = Undefined\<rparr>])
   = [\<lparr>js_x = Num 375, js_y = Num 325\<rparr>, \<lparr>js_x = Num 5, js_y = Num 7\<rparr>,
      \<lparr>js_x = Num 375, js_y = Num 325\<rparr>]"
proof -
  let ?random = "\<lambda>k::nat. if even k then (0.25::real) else 0.75"
  let ?ps = "[\<lparr>js_x = NaN, js_y = Num 10\<rparr>, \<lparr>js_x = Num 5, js_y = Num 7\<rparr>,
          \<lparr>js_x = Num 3, js_y = Undefined\<rparr>]"
  have a: "\<forall>k. 0 \<le> ?random k \<and> ?random k < 1" by simp
  have b: "0 < length ?ps" by simp
  have c: "fst (validatePositions 800 600 ?random 0 ?ps)
   = [\<lparr>js_x = Num 375, js_y = Num 325\<rparr>, \<lparr>js_x = Num 5, js_y = Num 7\<rparr>,
      \<lparr>js_x = Num 375, js_y = Num 325\<rparr>]"
    by (simp add: Let_def)
  from validated_positions_defined[OF a b, of 800 600 0] c show ?thesis by simp
qed

end
